theory Spec2Isabelle
  imports Main
begin

section \<open>Text\<close>

text \<open>
  A Python \<open>str\<close> is modelled as a \<open>string\<close>, each \<open>char\<close> read as the code point of
  that number (0 to 255); files are assumed to decode as UTF-8 and to stay inside this
  range.
\<close>

definition LF :: char where
  "LF = CHR 0x0A"

definition CR :: char where
  "CR = CHR 0x0D"

text \<open>
  The characters that \<open>\s\<close> matches in a \<open>str\<close> pattern of Python's \<open>re\<close>, among the code
  points below 256: tab, line feed, vertical tab, form feed, carriage return, the four
  separators 0x1C to 0x1F, space, NEL (0x85) and the no-break space (0xA0).
\<close>

definition is_space :: "char \<Rightarrow> bool" where
  "is_space c = (of_char c \<in> {9, 10, 11, 12, 13, 28, 29, 30, 31, 32, 133, 160 :: nat})"

subsection \<open>Reading a file in text mode\<close>

text \<open>
  \<open>open(filename, 'r', encoding='utf-8')\<close> leaves \<open>newline\<close> at its default, so the file
  is read with universal newlines: \<open>\r\n\<close> and a lone \<open>\r\<close> are both delivered as \<open>\n\<close>.
\<close>

fun translate_newlines :: "string \<Rightarrow> string" where
  "translate_newlines [] = []"
| "translate_newlines [c] = (if c = CR then [LF] else [c])"
| "translate_newlines (c # d # cs) =
     (if c = CR then (if d = LF then LF # translate_newlines cs
                      else LF # translate_newlines (d # cs))
      else c # translate_newlines (d # cs))"

text \<open>
  Iterating over the file yields the lines, each with its terminating \<open>\n\<close>; a last
  line without terminator is yielded as it is. \<open>split_lines acc cs\<close> has read \<open>acc\<close> of
  the current line.
\<close>

fun split_lines :: "string \<Rightarrow> string \<Rightarrow> string list" where
  "split_lines acc [] = (if acc = [] then [] else [acc])"
| "split_lines acc (c # cs) =
     (if c = LF then (acc @ [c]) # split_lines [] cs else split_lines (acc @ [c]) cs)"

definition text_lines :: "string \<Rightarrow> string list" where
  "text_lines raw = split_lines [] (translate_newlines raw)"

text \<open>
  The lines of a file as they are on disk, every line with the terminator it has there
  (\<open>\n\<close>, \<open>\r\n\<close> or \<open>\r\<close>): what text mode would yield without the translation.
\<close>

fun disk_lines :: "string \<Rightarrow> string \<Rightarrow> string list" where
  "disk_lines acc [] = (if acc = [] then [] else [acc])"
| "disk_lines acc [c] = [acc @ [c]]"
| "disk_lines acc (c # d # cs) =
     (if c = CR \<and> d = LF then (acc @ [c, d]) # disk_lines [] cs
      else if c = LF \<or> c = CR then (acc @ [c]) # disk_lines [] (d # cs)
      else disk_lines (acc @ [c]) (d # cs))"

section \<open>The include pattern\<close>

text \<open>
  \<^verbatim>\<open>amalgamate_include = re.compile(r'^\s*#\s*include\s+\"([^)]+)\"\s$')\<close>

  The pattern uses literals, the class \<open>\s\<close> and the negated class \<open>[^)]\<close> under the
  greedy repetitions \<open>*\<close> and \<open>+\<close>, one capture group and the two anchors. A pattern is
  a list of such items, matched by backtracking: every item yields its possible
  continuations in the order in which \<open>re\<close> tries them, the longest repetition first,
  and the first complete match wins.
\<close>

datatype char_class = Whitespace | Not_Char char

fun in_class :: "char_class \<Rightarrow> char \<Rightarrow> bool" where
  "in_class Whitespace c = is_space c"
| "in_class (Not_Char x) c = (c \<noteq> x)"

datatype item =
    Start_Anchor
  | Lit string
  | Star char_class
  | Plus char_class
  | One char_class
  | Group_Plus char_class
  | End_Anchor

text \<open>
  All ways of splitting a string into a prefix of characters of the class and the rest,
  the longest prefix first.
\<close>

fun greedy :: "char_class \<Rightarrow> string \<Rightarrow> (string \<times> string) list" where
  "greedy k [] = [([], [])]"
| "greedy k (c # cs) =
     (if in_class k c then map (\<lambda>(w, r). (c # w, r)) (greedy k cs) @ [([], c # cs)]
      else [([], c # cs)])"

text \<open>
  A matcher state: the position reached, the rest of the subject and the groups captured
  so far. \<open>$\<close> (without \<open>re.MULTILINE\<close>) matches at the end of the subject and just
  before a newline that ends the subject.
\<close>

type_synonym mstate = "nat \<times> string \<times> string list"

fun step :: "item \<Rightarrow> mstate \<Rightarrow> mstate list" where
  "step Start_Anchor (pos, rest, groups) = (if pos = 0 then [(pos, rest, groups)] else [])"
| "step (Lit l) (pos, rest, groups) =
     (if take (length l) rest = l then [(pos + length l, drop (length l) rest, groups)] else [])"
| "step (Star k) (pos, rest, groups) =
     map (\<lambda>(w, r). (pos + length w, r, groups)) (greedy k rest)"
| "step (Plus k) (pos, rest, groups) =
     map (\<lambda>(w, r). (pos + length w, r, groups)) (filter (\<lambda>(w, r). w \<noteq> []) (greedy k rest))"
| "step (One k) (pos, rest, groups) =
     (case rest of [] \<Rightarrow> []
      | c # cs \<Rightarrow> if in_class k c then [(pos + 1, cs, groups)] else [])"
| "step (Group_Plus k) (pos, rest, groups) =
     map (\<lambda>(w, r). (pos + length w, r, groups @ [w])) (filter (\<lambda>(w, r). w \<noteq> []) (greedy k rest))"
| "step End_Anchor (pos, rest, groups) =
     (if rest = [] \<or> rest = [LF] then [(pos, rest, groups)] else [])"

fun run :: "item list \<Rightarrow> mstate \<Rightarrow> mstate list" where
  "run [] st = [st]"
| "run (i # is) st = concat (map (run is) (step i st))"

text \<open>\<open>pattern.match(line)\<close>: the groups of the first match from position 0, if any.\<close>

definition re_match :: "item list \<Rightarrow> string \<Rightarrow> string list option" where
  "re_match p line =
     (case run p (0, line, []) of [] \<Rightarrow> None | (pos, rest, groups) # _ \<Rightarrow> Some groups)"

definition amalgamate_include :: "item list" where
  "amalgamate_include =
     [Start_Anchor, Star Whitespace, Lit ''#'', Star Whitespace, Lit ''include'',
      Plus Whitespace, Lit [CHR 0x22], Group_Plus (Not_Char CHR '')''), Lit [CHR 0x22],
      One Whitespace, End_Anchor]"

text \<open>
  \<open>a9e_inc_m = amalgamate_include.match(source_line)\<close> and \<open>a9e_inc_m.group(1)\<close>: a
  match object is always true, and the pattern has one group.
\<close>

definition amalgamate_include_match :: "string \<Rightarrow> string option" where
  "amalgamate_include_match source_line =
     (case re_match amalgamate_include source_line of
        None \<Rightarrow> None
      | Some [] \<Rightarrow> None
      | Some (g # _) \<Rightarrow> Some g)"

section \<open>The operating system\<close>

text \<open>
  What \<open>open\<close> does with a file name: it yields the decoded text of the file, raises
  \<open>FileNotFoundError\<close>, or raises another \<open>OSError\<close> (the name is a directory, the file
  is not readable).
\<close>

datatype opened = Opened string | FileNotFoundError | OSError

text \<open>
  The functions of \<open>os\<close> and \<open>os.path\<close> that the program calls are parameters of the
  model. \<open>path_exists\<close> and \<open>open_r\<close> are independent of each other, so a file that is
  there at the existence check and gone at the read is one of the systems described.
  \<open>git_rev_parse srcdir\<close> is the decoded output of \<open>git rev-parse HEAD\<close> run in \<open>srcdir\<close>,
  or \<open>None\<close> when the call raises.
\<close>

record os =
  path_realpath :: "string \<Rightarrow> string"
  path_abspath :: "string \<Rightarrow> string"
  path_dirname :: "string \<Rightarrow> string"
  path_join :: "string \<Rightarrow> string \<Rightarrow> string"
  path_relpath :: "string \<Rightarrow> string \<Rightarrow> string"
  path_exists :: "string \<Rightarrow> bool"
  open_r :: "string \<Rightarrow> opened"
  getcwd :: string
  git_rev_parse :: "string \<Rightarrow> string option"

section \<open>The amalgamator\<close>

text \<open>
  The output stream is the list of the \<open>stream.write\<close> calls made on it, one constructor
  for each call site of \<open>amalgamate\<close>; \<open>render\<close> is the text a call writes, and the
  content of the stream is the concatenation of these texts.
\<close>

datatype written =
    Banner
  | Git_Id string
  | Begin string
  | Include_Line string
  | Plain_Line string
  | End string
  | Error_Line string

fun render :: "written \<Rightarrow> string" where
  "render Banner = ''/* AUTOMATICALLY GENERATED FILE, DO NOT MODIFY */'' @ [LF]"
| "render (Git_Id git_id) = ''/* '' @ git_id @ '' */'' @ [LF]"
| "render (Begin rel_path_str) = ''/* :: Begin '' @ rel_path_str @ '' :: */'' @ [LF]"
| "render (Include_Line source_line) = source_line"
| "render (Plain_Line source_line) = source_line"
| "render (End rel_path_str) = ''/* :: End '' @ rel_path_str @ '' :: */'' @ [LF]"
| "render (Error_Line filename) = ''/* ERROR: Could not find file '' @ filename @ '' */'' @ [LF]"

definition stream_text :: "written list \<Rightarrow> string" where
  "stream_text ws = concat (map render ws)"

text \<open>
  The state that a call of \<open>amalgamate\<close> changes: the stream, the list
  \<open>already_included\<close> that all calls of one run share, and what \<open>print\<close> has written.
\<close>

record run_state =
  stream :: "written list"
  already_included :: "string list"
  console :: "string list"

definition stream_write :: "written \<Rightarrow> run_state \<Rightarrow> run_state" where
  "stream_write w s = s\<lparr>stream := stream s @ [w]\<rparr>"

definition print :: "string \<Rightarrow> run_state \<Rightarrow> run_state" where
  "print msg s = s\<lparr>console := console s @ [msg]\<rparr>"

definition replace_backslash :: "string \<Rightarrow> string" where
  "replace_backslash p = map (\<lambda>c. if c = CHR 0x5C then CHR ''/'' else c) p"

text \<open>A call returns, or an exception that \<open>amalgamate\<close> does not catch leaves it.\<close>

datatype outcome = Returned | Raised

text \<open>
  \<open>amalgamate\<close> calls itself from the loop over the lines of the file. The first
  argument bounds the depth of these calls: \<open>None\<close> means that the bound was reached.
  \<open>amalgamate_lines\<close> is the \<open>for source_line in input_file\<close> loop.
\<close>

fun amalgamate ::
    "nat \<Rightarrow> os \<Rightarrow> string \<Rightarrow> string \<Rightarrow> string \<Rightarrow> run_state \<Rightarrow> (outcome \<times> run_state) option"
  and amalgamate_lines ::
    "nat \<Rightarrow> os \<Rightarrow> string \<Rightarrow> string \<Rightarrow> string \<Rightarrow> string list \<Rightarrow> run_state
       \<Rightarrow> (outcome \<times> run_state) option"
where
  "amalgamate 0 os filename src_root git_id s = None"
| "amalgamate (Suc depth) os filename src_root git_id s =
     (let full_path = path_realpath os filename;
          srcdir = path_dirname os full_path;
          s1 = stream_write (Git_Id git_id) (stream_write Banner s)
      in if full_path \<in> set (already_included s1) then Some (Returned, s1)
         else
           let s2 = s1\<lparr>already_included := already_included s1 @ [full_path]\<rparr> in
           case open_r os filename of
             Opened text \<Rightarrow>
               let rel_path_str = replace_backslash (path_relpath os full_path src_root);
                   s3 = stream_write (Begin rel_path_str) s2
               in (case amalgamate_lines depth os srcdir src_root git_id (text_lines text) s3 of
                     None \<Rightarrow> None
                   | Some (Raised, s4) \<Rightarrow> Some (Raised, s4)
                   | Some (Returned, s4) \<Rightarrow> Some (Returned, stream_write (End rel_path_str) s4))
           | FileNotFoundError \<Rightarrow>
               Some (Returned,
                 stream_write (Error_Line filename)
                   (print (''Warning: Could not find file to amalgamate: '' @ filename) s2))
           | OSError \<Rightarrow> Some (Raised, s2))"
| "amalgamate_lines depth os srcdir src_root git_id [] s = Some (Returned, s)"
| "amalgamate_lines depth os srcdir src_root git_id (source_line # rest) s =
     (case amalgamate_include_match source_line of
        Some group1 \<Rightarrow>
          let inc_path = path_join os srcdir group1 in
          if path_exists os inc_path then
            (case amalgamate depth os inc_path src_root git_id s of
               None \<Rightarrow> None
             | Some (Raised, s') \<Rightarrow> Some (Raised, s')
             | Some (Returned, s') \<Rightarrow> amalgamate_lines depth os srcdir src_root git_id rest s')
          else amalgamate_lines depth os srcdir src_root git_id rest
                 (stream_write (Include_Line source_line) s)
      | None \<Rightarrow>
          amalgamate_lines depth os srcdir src_root git_id rest
            (stream_write (Plain_Line source_line) s))"

definition shift :: "nat \<Rightarrow> mstate \<Rightarrow> mstate" where
  "shift d st = (case st of (p, r, g) \<Rightarrow> (p + d, r, g))"

definition accepts :: "item list \<Rightarrow> string \<Rightarrow> string list \<Rightarrow> string list \<Rightarrow> bool" where
  "accepts is r g gs \<longleftrightarrow> (\<exists>p' r'. (p', r', gs) \<in> set (run is (0, r, g)))"

definition include_shape :: "string \<Rightarrow> string \<Rightarrow> bool" where
  "include_shape line g \<longleftrightarrow>
     (\<exists>w1 w2 w3 c t.
        line = w1 @ ''#'' @ w2 @ ''include'' @ w3 @ [CHR 0x22] @ g @ [CHR 0x22] @ [c] @ t \<and>
        list_all is_space w1 \<and> list_all is_space w2 \<and> list_all is_space w3 \<and> w3 \<noteq> [] \<and>
        g \<noteq> [] \<and> CHR '')'' \<notin> set g \<and> is_space c \<and> (t = [] \<or> t = [LF]))"

definition banners :: "string \<Rightarrow> run_state \<Rightarrow> run_state" where
  "banners git_id s = stream_write (Git_Id git_id) (stream_write Banner s)"

definition record_path :: "string \<Rightarrow> run_state \<Rightarrow> run_state" where
  "record_path full_path s = s\<lparr>already_included := already_included s @ [full_path]\<rparr>"

definition rel_path_of :: "os \<Rightarrow> string \<Rightarrow> string \<Rightarrow> string" where
  "rel_path_of os src_root filename =
     replace_backslash (path_relpath os (path_realpath os filename) src_root)"

definition srcdir_of :: "os \<Rightarrow> string \<Rightarrow> string" where
  "srcdir_of os filename = path_dirname os (path_realpath os filename)"

definition warning :: "string \<Rightarrow> string" where
  "warning filename = ''Warning: Could not find file to amalgamate: '' @ filename"

inductive amalgamated ::
    "os \<Rightarrow> string \<Rightarrow> string \<Rightarrow> string \<Rightarrow> run_state \<Rightarrow> outcome \<Rightarrow> run_state \<Rightarrow> bool"
  and lines_amalgamated ::
    "os \<Rightarrow> string \<Rightarrow> string \<Rightarrow> string \<Rightarrow> string list \<Rightarrow> run_state \<Rightarrow> outcome \<Rightarrow> run_state \<Rightarrow> bool"
  for os :: os and src_root :: string and git_id :: string
where
  seen:
    "path_realpath os filename \<in> set (already_included s) \<Longrightarrow>
     amalgamated os src_root git_id filename s Returned (banners git_id s)"
| not_found:
    "path_realpath os filename \<notin> set (already_included s) \<Longrightarrow>
     open_r os filename = FileNotFoundError \<Longrightarrow>
     amalgamated os src_root git_id filename s Returned
       (stream_write (Error_Line filename)
         (print (warning filename) (record_path (path_realpath os filename) (banners git_id s))))"
| os_error:
    "path_realpath os filename \<notin> set (already_included s) \<Longrightarrow>
     open_r os filename = OSError \<Longrightarrow>
     amalgamated os src_root git_id filename s Raised
       (record_path (path_realpath os filename) (banners git_id s))"
| expanded:
    "path_realpath os filename \<notin> set (already_included s) \<Longrightarrow>
     open_r os filename = Opened text \<Longrightarrow>
     lines_amalgamated os src_root git_id (srcdir_of os filename) (text_lines text)
       (stream_write (Begin (rel_path_of os src_root filename))
         (record_path (path_realpath os filename) (banners git_id s))) Returned s4 \<Longrightarrow>
     amalgamated os src_root git_id filename s Returned
       (stream_write (End (rel_path_of os src_root filename)) s4)"
| aborted:
    "path_realpath os filename \<notin> set (already_included s) \<Longrightarrow>
     open_r os filename = Opened text \<Longrightarrow>
     lines_amalgamated os src_root git_id (srcdir_of os filename) (text_lines text)
       (stream_write (Begin (rel_path_of os src_root filename))
         (record_path (path_realpath os filename) (banners git_id s))) Raised s4 \<Longrightarrow>
     amalgamated os src_root git_id filename s Raised s4"
| finished:
    "lines_amalgamated os src_root git_id srcdir [] s Returned s"
| plain:
    "amalgamate_include_match source_line = None \<Longrightarrow>
     lines_amalgamated os src_root git_id srcdir rest
       (stream_write (Plain_Line source_line) s) r s' \<Longrightarrow>
     lines_amalgamated os src_root git_id srcdir (source_line # rest) s r s'"
| missing:
    "amalgamate_include_match source_line = Some group1 \<Longrightarrow>
     \<not> path_exists os (path_join os srcdir group1) \<Longrightarrow>
     lines_amalgamated os src_root git_id srcdir rest
       (stream_write (Include_Line source_line) s) r s' \<Longrightarrow>
     lines_amalgamated os src_root git_id srcdir (source_line # rest) s r s'"
| inlined:
    "amalgamate_include_match source_line = Some group1 \<Longrightarrow>
     path_exists os (path_join os srcdir group1) \<Longrightarrow>
     amalgamated os src_root git_id (path_join os srcdir group1) s Returned s1 \<Longrightarrow>
     lines_amalgamated os src_root git_id srcdir rest s1 r s' \<Longrightarrow>
     lines_amalgamated os src_root git_id srcdir (source_line # rest) s r s'"
| propagated:
    "amalgamate_include_match source_line = Some group1 \<Longrightarrow>
     path_exists os (path_join os srcdir group1) \<Longrightarrow>
     amalgamated os src_root git_id (path_join os srcdir group1) s Raised s1 \<Longrightarrow>
     lines_amalgamated os src_root git_id srcdir (source_line # rest) s Raised s1"

fun is_error_for :: "os \<Rightarrow> string \<Rightarrow> written \<Rightarrow> bool" where
  "is_error_for os c (Error_Line filename) = (path_realpath os filename = c)"
| "is_error_for os c _ = False"

definition errors :: "os \<Rightarrow> string \<Rightarrow> written list \<Rightarrow> nat" where
  "errors os c ws = length (filter (is_error_for os c) ws)"

definition display :: "os \<Rightarrow> string \<Rightarrow> string \<Rightarrow> string" where
  "display os src_root full_path = replace_backslash (path_relpath os full_path src_root)"

definition shown :: "os \<Rightarrow> string \<Rightarrow> string \<Rightarrow> string list \<Rightarrow> nat" where
  "shown os src_root r ps = length (filter (\<lambda>c. display os src_root c = r) ps)"

definition accounts :: "os \<Rightarrow> string \<Rightarrow> run_state \<Rightarrow> run_state \<Rightarrow> bool" where
  "accounts os src_root s s' \<longleftrightarrow>
     (\<exists>ws ps. stream s' = stream s @ ws \<and> already_included s' = already_included s @ ps \<and>
        distinct ps \<and> set ps \<inter> set (already_included s) = {} \<and>
        (\<forall>c. errors os c ws \<le> count_list ps c) \<and>
        (\<forall>r. count_list ws (Begin r) \<le> shown os src_root r ps))"

subsection \<open>posixpath\<close>

definition isabs :: "string \<Rightarrow> bool" where
  "isabs p = (case p of [] \<Rightarrow> False | c # _ \<Rightarrow> c = CHR ''/'')"

definition posix_join :: "string \<Rightarrow> string \<Rightarrow> string" where
  "posix_join a b =
     (if isabs b then b
      else if a = [] \<or> last a = CHR ''/'' then a @ b
      else a @ ''/'' @ b)"

definition posix_dirname :: "string \<Rightarrow> string" where
  "posix_dirname p =
     (let head = rev (dropWhile (\<lambda>c. c \<noteq> CHR ''/'') (rev p))
      in if head \<noteq> [] \<and> \<not> list_all (\<lambda>c. c = CHR ''/'') head
         then rev (dropWhile (\<lambda>c. c = CHR ''/'') (rev head)) else head)"

fun split_sep :: "string \<Rightarrow> string \<Rightarrow> string list" where
  "split_sep acc [] = [acc]"
| "split_sep acc (c # cs) =
     (if c = CHR ''/'' then acc # split_sep [] cs else split_sep (acc @ [c]) cs)"

fun join_sep :: "string list \<Rightarrow> string" where
  "join_sep [] = []"
| "join_sep [x] = x"
| "join_sep (x # y # ys) = x @ ''/'' @ join_sep (y # ys)"

definition norm_comp :: "nat \<Rightarrow> string list \<Rightarrow> string \<Rightarrow> string list" where
  "norm_comp initial_slashes new_comps name =
     (if name = [] \<or> name = ''.'' then new_comps
      else if name \<noteq> ''..'' \<or> (initial_slashes = 0 \<and> new_comps = []) \<or>
              (new_comps \<noteq> [] \<and> last new_comps = ''..'')
      then new_comps @ [name]
      else butlast new_comps)"

definition posix_normpath :: "string \<Rightarrow> string" where
  "posix_normpath p =
     (if p = [] then ''.''
      else
        let initial_slashes =
              (if take 1 p = ''/'' then (if take 2 p = ''//'' \<and> take 3 p \<noteq> ''///'' then 2 else 1)
               else (0::nat));
            comps = foldl (norm_comp initial_slashes) [] (split_sep [] p);
            q = replicate initial_slashes CHR ''/'' @ join_sep comps
        in if q = [] then ''.'' else q)"

definition posix_abspath :: "string \<Rightarrow> string \<Rightarrow> string" where
  "posix_abspath cwd p = posix_normpath (if isabs p then p else posix_join cwd p)"

fun common_prefix :: "string list \<Rightarrow> string list \<Rightarrow> nat" where
  "common_prefix (x # xs) (y # ys) = (if x = y then Suc (common_prefix xs ys) else 0)"
| "common_prefix _ _ = 0"

definition posix_relpath :: "string \<Rightarrow> string \<Rightarrow> string \<Rightarrow> string" where
  "posix_relpath cwd p start =
     (let start_list = filter (\<lambda>x. x \<noteq> []) (split_sep [] (posix_abspath cwd start));
          path_list = filter (\<lambda>x. x \<noteq> []) (split_sep [] (posix_abspath cwd p));
          i = common_prefix start_list path_list;
          rel_list = replicate (length start_list - i) ''..'' @ drop i path_list
      in case rel_list of [] \<Rightarrow> ''.'' | x # xs \<Rightarrow> foldl posix_join x xs)"

text \<open>
  A system in the manner of POSIX without symbolic links: the working directory, the
  directories and the files with their texts, all under absolute normalized paths. A
  directory exists and cannot be opened as a file.
\<close>

definition posix :: "string \<Rightarrow> string list \<Rightarrow> (string \<times> string) list \<Rightarrow> os" where
  "posix cwd dirs files =
     \<lparr>path_realpath = posix_abspath cwd,
      path_abspath = posix_abspath cwd,
      path_dirname = posix_dirname,
      path_join = posix_join,
      path_relpath = posix_relpath cwd,
      path_exists = (\<lambda>p. posix_abspath cwd p \<in> set (map fst files) \<or> posix_abspath cwd p \<in> set dirs),
      open_r = (\<lambda>p. case map_of files (posix_abspath cwd p) of
                       Some content \<Rightarrow> Opened content
                     | None \<Rightarrow> if posix_abspath cwd p \<in> set dirs then OSError else FileNotFoundError),
      getcwd = cwd,
      git_rev_parse = (\<lambda>srcdir. None)\<rparr>"

definition Q :: char where "Q = CHR 0x22"

definition cyclic :: os where
  "cyclic = posix ''/repo'' [''/'', ''/repo'', ''/repo/simde'']
     [(''/repo/simde/a.h'',
         ''#include <stdio.h>'' @ [LF] @ ''#include '' @ [Q] @ ''b.h'' @ [Q, LF] @ ''int a;'' @ [LF]),
      (''/repo/simde/b.h'',
         ''#include '' @ [Q] @ ''./a.h'' @ [Q, LF] @ ''#include '' @ [Q] @ ''missing.h'' @ [Q, LF] @
         ''int b;'')]"

definition start :: run_state where
  "start = \<lparr>stream = [], already_included = [], console = []\<rparr>"

definition inlines :: "os \<Rightarrow> string \<Rightarrow> string \<Rightarrow> bool" where
  "inlines os f g \<longleftrightarrow>
     (\<exists>content l p. open_r os f = Opened content \<and> l \<in> set (text_lines content) \<and>
        amalgamate_include_match l = Some p \<and> g = path_join os (srcdir_of os f) p \<and>
        path_exists os g)"

definition same_file :: "os \<Rightarrow> bool" where
  "same_file os \<longleftrightarrow>
     (\<forall>f g. path_realpath os f = path_realpath os g \<longrightarrow> open_r os f = open_r os g)"

definition expanded_in :: "os \<Rightarrow> string \<Rightarrow> string \<Rightarrow> written list \<Rightarrow> bool" where
  "expanded_in os src_root g ws \<longleftrightarrow>
     (\<exists>content. open_r os g = Opened content \<and>
        Begin (rel_path_of os src_root g) \<in> set ws \<and> End (rel_path_of os src_root g) \<in> set ws \<and>
        (\<forall>l\<in>set (text_lines content). amalgamate_include_match l = None \<longrightarrow> Plain_Line l \<in> set ws))"

definition covered :: "os \<Rightarrow> string \<Rightarrow> run_state \<Rightarrow> run_state \<Rightarrow> bool" where
  "covered os src_root s s' \<longleftrightarrow>
     (\<forall>g. path_realpath os g \<in> set (already_included s') - set (already_included s) \<longrightarrow>
        (\<forall>h. inlines os g h \<longrightarrow> path_realpath os h \<in> set (already_included s')) \<and>
        ((\<exists>content. open_r os g = Opened content) \<longrightarrow> expanded_in os src_root g (stream s')))"

definition lines_done :: "os \<Rightarrow> string \<Rightarrow> string list \<Rightarrow> run_state \<Rightarrow> bool" where
  "lines_done os srcdir ls s' \<longleftrightarrow>
     (\<forall>l\<in>set ls.
        (amalgamate_include_match l = None \<longrightarrow> Plain_Line l \<in> set (stream s')) \<and>
        (\<forall>p. amalgamate_include_match l = Some p \<longrightarrow> path_exists os (path_join os srcdir p) \<longrightarrow>
           path_realpath os (path_join os srcdir p) \<in> set (already_included s')))"

definition vanishing :: os where
  "vanishing =
     (posix ''/repo'' [''/'', ''/repo'', ''/repo/simde'']
        [(''/repo/simde/a.h'',
            ''#include '' @ [Q] @ ''b.h'' @ [Q, LF] @ ''#include '' @ [Q] @ ''./b.h'' @ [Q, LF] @
            ''int a;'' @ [LF]),
         (''/repo/simde/b.h'', ''int b;'' @ [LF])])
     \<lparr>open_r := (\<lambda>p. if posix_abspath ''/repo'' p = ''/repo/simde/b.h'' then FileNotFoundError
                      else Opened (''#include '' @ [Q] @ ''b.h'' @ [Q, LF] @
                                   ''#include '' @ [Q] @ ''./b.h'' @ [Q, LF] @ ''int a;'' @ [LF]))\<rparr>"

definition crlf :: os where
  "crlf = posix ''/repo'' [''/'', ''/repo''] [(''/repo/x.h'', ''int x;'' @ [CR, LF])]"

definition cyclic_result :: run_state where
  "cyclic_result =
     \<lparr>stream =
        [Banner, Git_Id ''abc'', Begin ''simde/a.h'', Plain_Line (''#include <stdio.h>'' @ [LF]),
         Banner, Git_Id ''abc'', Begin ''simde/b.h'',
         Banner, Git_Id ''abc'',
         Include_Line (''#include '' @ [Q] @ ''missing.h'' @ [Q, LF]),
         Plain_Line ''int b;'', End ''simde/b.h'',
         Plain_Line (''int a;'' @ [LF]), End ''simde/a.h''],
      already_included = [''/repo/simde/a.h'', ''/repo/simde/b.h''],
      console = []\<rparr>"

definition vanishing_result :: run_state where
  "vanishing_result =
     \<lparr>stream =
        [Banner, Git_Id ''abc'', Begin ''simde/a.h'',
         Banner, Git_Id ''abc'', Error_Line ''/repo/simde/b.h'',
         Banner, Git_Id ''abc'',
         Plain_Line (''int a;'' @ [LF]), End ''simde/a.h''],
      already_included = [''/repo/simde/a.h'', ''/repo/simde/b.h''],
      console = [''Warning: Could not find file to amalgamate: /repo/simde/b.h'']\<rparr>"

definition rparen_crlf :: os where
  "rparen_crlf = posix ''/repo'' [''/'', ''/repo'']
     [(''/repo/z.h'', ''#include '' @ [Q] @ ''a)b.h'' @ [Q, CR, LF])]"

text \<open>
  The system \<open>vanishing\<close> at a later moment for the second directive of \<open>a.h\<close>: the file
  \<open>b.h\<close> is absent when the existence of \<open>/repo/simde/./b.h\<close> is checked.
\<close>

definition gone :: os where
  "gone = vanishing\<lparr>path_exists := (\<lambda>p. p \<noteq> ''/repo/simde/./b.h'' \<and> path_exists vanishing p)\<rparr>"

definition gone_result :: run_state where
  "gone_result =
     \<lparr>stream =
        [Banner, Git_Id ''abc'', Begin ''simde/a.h'',
         Banner, Git_Id ''abc'', Error_Line ''/repo/simde/b.h'',
         Include_Line (''#include '' @ [Q] @ ''./b.h'' @ [Q, LF]),
         Plain_Line (''int a;'' @ [LF]), End ''simde/a.h''],
      already_included = [''/repo/simde/a.h'', ''/repo/simde/b.h''],
      console = [''Warning: Could not find file to amalgamate: /repo/simde/b.h'']\<rparr>"

definition after_failure :: "os \<Rightarrow> string \<Rightarrow> string \<Rightarrow> run_state \<Rightarrow> outcome \<times> run_state" where
  "after_failure os filename git_id s =
     (case open_r os filename of
        FileNotFoundError \<Rightarrow>
          (Returned,
           s\<lparr>stream := stream s @ [Banner, Git_Id git_id, Error_Line filename],
             already_included := already_included s @ [path_realpath os filename],
             console := console s @ [''Warning: Could not find file to amalgamate: '' @ filename]\<rparr>)
      | _ \<Rightarrow>
          (Raised,
           s\<lparr>stream := stream s @ [Banner, Git_Id git_id],
             already_included := already_included s @ [path_realpath os filename]\<rparr>))"

definition crlf_include :: os where
  "crlf_include = posix ''/repo'' [''/'', ''/repo'']
     [(''/repo/y.h'', ''#include '' @ [Q] @ ''missing.h'' @ [Q, CR, LF])]"

definition lf_file :: os where
  "lf_file = posix ''/repo'' [''/'', ''/repo''] [(''/repo/x.h'', ''#include <math.h>'' @ [LF] @ ''int x;'' @ [LF])]"

section \<open>The archive builder\<close>











text \<open>
  What \<open>main\<close> creates. It first removes the staging directory \<open>base_dir\<close> and the archive,
  if they exist, and makes the directory anew, so the files below \<open>base_dir\<close> are those that
  \<open>main\<close> writes: \<open>tree\<close> lists them, each under the path with which it was opened, with
  what was written into it. An amalgamated file holds the writes of its run; the licence is
  a copy of the file \<open>COPYING\<close>. Directories are not listed (\<open>os.makedirs\<close> makes those
  that the files need). The system \<open>os\<close> describes the files that \<open>main\<close> reads, as they
  are after the removal; the files that \<open>main\<close> writes are assumed not to be among them.
\<close>

datatype file_content = Amalgamated "written list" | Copy_Of string

record staging =
  tree :: "(string \<times> file_content) list"
  printed :: "string list"

text \<open>Opening a path for writing creates the file or replaces what it holds.\<close>

fun write_file ::
    "string \<Rightarrow> file_content \<Rightarrow> (string \<times> file_content) list \<Rightarrow> (string \<times> file_content) list"
where
  "write_file p c [] = [(p, c)]"
| "write_file p c ((q, d) # fs) = (if q = p then (p, c) # fs else (q, d) # write_file p c fs)"

text \<open>
  The loop \<open>for rel_path in EXPECTED_FILES\<close>. Every call of \<open>amalgamate\<close> gets a new stream
  and the new list \<open>[]\<close>; what the call prints goes after what has been printed. An exception
  of the call ends \<open>main\<close>; the file that was open is left with what was written.
\<close>

fun main_loop ::
    "nat \<Rightarrow> os \<Rightarrow> string \<Rightarrow> string \<Rightarrow> string \<Rightarrow> string \<Rightarrow> string list \<Rightarrow> staging
       \<Rightarrow> (outcome \<times> staging) option"
where
  "main_loop depth os source_dir output_simde_dir repo_root git_id [] st = Some (Returned, st)"
| "main_loop depth os source_dir output_simde_dir repo_root git_id (rel_path # rest) st =
     (let source_path = path_join os source_dir rel_path;
          dest_path = path_join os output_simde_dir rel_path
      in if path_exists os source_path then
           (case amalgamate depth os source_path repo_root git_id
                   \<lparr>stream = [], already_included = [], console = []\<rparr> of
              None \<Rightarrow> None
            | Some (Raised, s) \<Rightarrow>
                Some (Raised,
                  st\<lparr>tree := write_file dest_path (Amalgamated (stream s)) (tree st),
                     printed := printed st @ console s\<rparr>)
            | Some (Returned, s) \<Rightarrow>
                main_loop depth os source_dir output_simde_dir repo_root git_id rest
                  (st\<lparr>tree := write_file dest_path (Amalgamated (stream s)) (tree st),
                     printed := printed st @ console s\<rparr>))
         else main_loop depth os source_dir output_simde_dir repo_root git_id rest
                (st\<lparr>printed := printed st @
                   [''Warning: Source file '' @ [CHR 0x27] @ source_path @ [CHR 0x27] @
                    '' not found. Skipping.'']\<rparr>))"









lemma set_greedy: "set (greedy k s) = {(w, r). s = w @ r \<and> (\<forall>c\<in>set w. in_class k c)}"
proof (induction s)
  case Nil
  then show ?case by auto
next
  case (Cons a s)
  show ?case
  proof (cases "in_class k a")
    case True
    then show ?thesis using Cons
      apply (auto simp: Cons_eq_append_conv)
      done
  next
    case False
    then show ?thesis by (auto simp: Cons_eq_append_conv)
  qed
qed

lemma in_run_Cons: "x \<in> set (run (i # is) st) \<longleftrightarrow> (\<exists>st'\<in>set (step i st). x \<in> set (run is st'))"
  by auto

lemma in_step_Start: "x \<in> set (step Start_Anchor (p, r, g)) \<longleftrightarrow> p = 0 \<and> x = (p, r, g)"
  by auto

lemma in_step_Lit:
  "x \<in> set (step (Lit l) (p, r, g)) \<longleftrightarrow> (\<exists>r'. r = l @ r' \<and> x = (p + length l, r', g))"
  by (auto simp: append_eq_conv_conj) (metis append_take_drop_id)

lemma in_step_Star:
  "x \<in> set (step (Star k) (p, r, g)) \<longleftrightarrow>
     (\<exists>w r'. r = w @ r' \<and> (\<forall>c\<in>set w. in_class k c) \<and> x = (p + length w, r', g))"
  by (auto simp: set_greedy)

lemma in_step_Plus:
  "x \<in> set (step (Plus k) (p, r, g)) \<longleftrightarrow>
     (\<exists>w r'. r = w @ r' \<and> w \<noteq> [] \<and> (\<forall>c\<in>set w. in_class k c) \<and> x = (p + length w, r', g))"
  by (auto simp: set_greedy)

lemma in_step_Group_Plus:
  "x \<in> set (step (Group_Plus k) (p, r, g)) \<longleftrightarrow>
     (\<exists>w r'. r = w @ r' \<and> w \<noteq> [] \<and> (\<forall>c\<in>set w. in_class k c) \<and> x = (p + length w, r', g @ [w]))"
  by (auto simp: set_greedy)

lemma in_step_One:
  "x \<in> set (step (One k) (p, r, g)) \<longleftrightarrow> (\<exists>c r'. r = c # r' \<and> in_class k c \<and> x = (p + 1, r', g))"
  by (auto split: list.splits)

lemma in_step_End:
  "x \<in> set (step End_Anchor (p, r, g)) \<longleftrightarrow> (r = [] \<or> r = [LF]) \<and> x = (p, r, g)"
  by auto

lemma step_shift:
  "i \<noteq> Start_Anchor \<Longrightarrow> step i (p + d, r, g) = map (shift d) (step i (p, r, g))"
  by (cases i) (auto simp: shift_def split: list.splits)

lemma run_shift:
  "Start_Anchor \<notin> set is \<Longrightarrow> run is (p + d, r, g) = map (shift d) (run is (p, r, g))"
proof (induction "is" arbitrary: p r g)
  case Nil
  then show ?case by (simp add: shift_def)
next
  case (Cons i "is")
  have sh: "run is (shift d st) = map (shift d) (run is st)" for st
    using Cons by (cases st) (simp add: shift_def)
  from Cons.prems have "i \<noteq> Start_Anchor" by auto
  then have "step i (p + d, r, g) = map (shift d) (step i (p, r, g))"
    by (rule step_shift)
  then show ?case
    by (simp add: map_concat comp_def sh)
qed

lemma accepts_any_pos:
  assumes "Start_Anchor \<notin> set is"
  shows "(\<exists>p' r'. (p', r', gs) \<in> set (run is (p, r, g))) \<longleftrightarrow> accepts is r g gs"
proof -
  have "run is (p, r, g) = map (shift p) (run is (0, r, g))"
    using run_shift [OF assms, of 0 p r g] by simp
  then show ?thesis
    unfolding accepts_def by (force simp: shift_def image_iff)
qed

lemma accepts_Start:
  "Start_Anchor \<notin> set is \<Longrightarrow> accepts (Start_Anchor # is) r g gs \<longleftrightarrow> accepts is r g gs"
  unfolding accepts_def by simp

lemma accepts_End: "accepts [End_Anchor] r g gs \<longleftrightarrow> (r = [] \<or> r = [LF]) \<and> gs = g"
  unfolding accepts_def by auto

lemma accepts_Lit:
  assumes "Start_Anchor \<notin> set is"
  shows "accepts (Lit l # is) r g gs \<longleftrightarrow> (\<exists>r'. r = l @ r' \<and> accepts is r' g gs)"
proof -
  have "accepts (Lit l # is) r g gs \<longleftrightarrow>
        (\<exists>st\<in>set (step (Lit l) (0, r, g)). \<exists>p' r'. (p', r', gs) \<in> set (run is st))"
    unfolding accepts_def by (simp only: in_run_Cons) blast
  also have "\<dots> \<longleftrightarrow> (\<exists>r'. r = l @ r' \<and> (\<exists>p' r''. (p', r'', gs) \<in> set (run is (length l, r', g))))"
    by (simp only: Bex_def in_step_Lit add_0) blast
  finally show ?thesis by (simp only: accepts_any_pos [OF assms])
qed

lemma accepts_Star:
  assumes "Start_Anchor \<notin> set is"
  shows "accepts (Star k # is) r g gs \<longleftrightarrow>
         (\<exists>w r'. r = w @ r' \<and> (\<forall>c\<in>set w. in_class k c) \<and> accepts is r' g gs)"
proof -
  have "accepts (Star k # is) r g gs \<longleftrightarrow>
        (\<exists>st\<in>set (step (Star k) (0, r, g)). \<exists>p' r'. (p', r', gs) \<in> set (run is st))"
    unfolding accepts_def by (simp only: in_run_Cons) blast
  also have "\<dots> \<longleftrightarrow> (\<exists>w r'. r = w @ r' \<and> (\<forall>c\<in>set w. in_class k c) \<and>
                (\<exists>p' r''. (p', r'', gs) \<in> set (run is (length w, r', g))))"
    by (simp only: Bex_def in_step_Star add_0) blast
  finally show ?thesis by (simp only: accepts_any_pos [OF assms])
qed

lemma accepts_Plus:
  assumes "Start_Anchor \<notin> set is"
  shows "accepts (Plus k # is) r g gs \<longleftrightarrow>
         (\<exists>w r'. r = w @ r' \<and> w \<noteq> [] \<and> (\<forall>c\<in>set w. in_class k c) \<and> accepts is r' g gs)"
proof -
  have "accepts (Plus k # is) r g gs \<longleftrightarrow>
        (\<exists>st\<in>set (step (Plus k) (0, r, g)). \<exists>p' r'. (p', r', gs) \<in> set (run is st))"
    unfolding accepts_def by (simp only: in_run_Cons) blast
  also have "\<dots> \<longleftrightarrow> (\<exists>w r'. r = w @ r' \<and> w \<noteq> [] \<and> (\<forall>c\<in>set w. in_class k c) \<and>
                (\<exists>p' r''. (p', r'', gs) \<in> set (run is (length w, r', g))))"
    by (simp only: Bex_def in_step_Plus add_0) blast
  finally show ?thesis by (simp only: accepts_any_pos [OF assms])
qed

lemma accepts_Group_Plus:
  assumes "Start_Anchor \<notin> set is"
  shows "accepts (Group_Plus k # is) r g gs \<longleftrightarrow>
         (\<exists>w r'. r = w @ r' \<and> w \<noteq> [] \<and> (\<forall>c\<in>set w. in_class k c) \<and> accepts is r' (g @ [w]) gs)"
proof -
  have "accepts (Group_Plus k # is) r g gs \<longleftrightarrow>
        (\<exists>st\<in>set (step (Group_Plus k) (0, r, g)). \<exists>p' r'. (p', r', gs) \<in> set (run is st))"
    unfolding accepts_def by (simp only: in_run_Cons) blast
  also have "\<dots> \<longleftrightarrow> (\<exists>w r'. r = w @ r' \<and> w \<noteq> [] \<and> (\<forall>c\<in>set w. in_class k c) \<and>
                (\<exists>p' r''. (p', r'', gs) \<in> set (run is (length w, r', g @ [w]))))"
    by (simp only: Bex_def in_step_Group_Plus add_0) blast
  finally show ?thesis by (simp only: accepts_any_pos [OF assms])
qed

lemma accepts_One:
  assumes "Start_Anchor \<notin> set is"
  shows "accepts (One k # is) r g gs \<longleftrightarrow>
         (\<exists>c r'. r = c # r' \<and> in_class k c \<and> accepts is r' g gs)"
proof -
  have "accepts (One k # is) r g gs \<longleftrightarrow>
        (\<exists>st\<in>set (step (One k) (0, r, g)). \<exists>p' r'. (p', r', gs) \<in> set (run is st))"
    unfolding accepts_def by (simp only: in_run_Cons) blast
  also have "\<dots> \<longleftrightarrow> (\<exists>c r'. r = c # r' \<and> in_class k c \<and>
                (\<exists>p' r''. (p', r'', gs) \<in> set (run is (1, r', g))))"
    by (simp only: Bex_def in_step_One add_0) blast
  finally show ?thesis by (simp only: accepts_any_pos [OF assms])
qed

lemma accepts_shape:
  "accepts amalgamate_include line [] gs \<longleftrightarrow> (\<exists>g. gs = [g] \<and> include_shape line g)"
proof -
  have "accepts amalgamate_include line [] gs \<longleftrightarrow>
     (\<exists>w1 r1. line = w1 @ r1 \<and> (\<forall>c\<in>set w1. is_space c) \<and>
      (\<exists>r2. r1 = ''#'' @ r2 \<and>
      (\<exists>w2 r3. r2 = w2 @ r3 \<and> (\<forall>c\<in>set w2. is_space c) \<and>
      (\<exists>r4. r3 = ''include'' @ r4 \<and>
      (\<exists>w3 r5. r4 = w3 @ r5 \<and> w3 \<noteq> [] \<and> (\<forall>c\<in>set w3. is_space c) \<and>
      (\<exists>r6. r5 = [CHR 0x22] @ r6 \<and>
      (\<exists>g r7. r6 = g @ r7 \<and> g \<noteq> [] \<and> (\<forall>c\<in>set g. c \<noteq> CHR '')'') \<and>
      (\<exists>r8. r7 = [CHR 0x22] @ r8 \<and>
      (\<exists>c t. r8 = c # t \<and> is_space c \<and> (t = [] \<or> t = [LF]) \<and> gs = [] @ [g])))))))))"
    unfolding amalgamate_include_def
    by (simp add: accepts_Start accepts_Lit accepts_Star accepts_Plus accepts_Group_Plus
        accepts_One accepts_End del: append.simps)
  also have "\<dots> \<longleftrightarrow> (\<exists>g. gs = [g] \<and> include_shape line g)" (is "?L \<longleftrightarrow> ?R")
  proof
    assume ?L
    then show ?R
      unfolding include_shape_def list_all_iff
      apply (elim exE conjE)
      apply simp
      apply (intro exI conjI)
               apply (rule refl)
              apply simp_all
      apply blast
      done
  next
    assume ?R
    then obtain g where g0: "gs = [g]" and sh: "include_shape line g"
      by blast
    from sh obtain w1 w2 w3 c t
      where l0: "line = w1 @ ''#'' @ w2 @ ''include'' @ w3 @ [CHR 0x22] @ g @ [CHR 0x22] @ [c] @ t"
        and a1: "list_all is_space w1" and a2: "list_all is_space w2"
        and a3: "list_all is_space w3" and w3: "w3 \<noteq> []" and gne: "g \<noteq> []"
        and a4: "CHR '')'' \<notin> set g" and sc: "is_space c" and tt: "t = [] \<or> t = [LF]"
      unfolding include_shape_def by blast
    from g0 have g: "gs = [] @ [g]" by simp
    from l0 have l: "line = w1 @ (''#'' @ (w2 @ (''include'' @ (w3 @ ([CHR 0x22] @ (g @ ([CHR 0x22] @ (c # t))))))))"
      by simp
    from a1 a2 a3 have s1: "\<forall>c\<in>set w1. is_space c" and s2: "\<forall>c\<in>set w2. is_space c"
      and s3: "\<forall>c\<in>set w3. is_space c"
      by (simp_all add: list_all_iff)
    from a4 have gp: "\<forall>c\<in>set g. c \<noteq> CHR '')''" by blast
    show ?L
      apply (rule exI [of _ w1], rule exI, rule conjI, rule l, rule conjI, rule s1)
      apply (rule exI, rule conjI, rule refl)
      apply (rule exI [of _ w2], rule exI, rule conjI, rule refl, rule conjI, rule s2)
      apply (rule exI, rule conjI, rule refl)
      apply (rule exI [of _ w3], rule exI, rule conjI, rule refl, rule conjI, rule w3, rule conjI, rule s3)
      apply (rule exI, rule conjI, rule refl)
      apply (rule exI [of _ g], rule exI, rule conjI, rule refl, rule conjI, rule gne, rule conjI, rule gp)
      apply (rule exI, rule conjI, rule refl)
      apply (rule exI [of _ c], rule exI [of _ t], rule conjI, rule refl, rule conjI, rule sc, rule conjI, rule tt, rule g)
      done
  qed
  finally show ?thesis .
qed

lemma span_unique:
  assumes "w @ x # r = w' @ x' # r'"
    and "\<forall>c\<in>set w. P c" and "\<forall>c\<in>set w'. P c" and "\<not> P x" and "\<not> P x'"
  shows "w = w' \<and> x = x' \<and> r = r'"
proof -
  have "takeWhile P (w @ x # r) = w"
    using assms(2,4) by (simp add: takeWhile_append2)
  moreover have "takeWhile P (w' @ x' # r') = w'"
    using assms(3,5) by (simp add: takeWhile_append2)
  ultimately have "w = w'" using assms(1) by metis
  with assms(1) show ?thesis by simp
qed

lemma not_space_chars [simp]:
  "\<not> is_space CHR ''#''" "\<not> is_space CHR ''i''" "\<not> is_space CHR 0x22" "\<not> is_space CHR '')''"
  "is_space LF" "is_space CHR '' ''"
  by (simp_all add: is_space_def LF_def)

lemma include_shape_unique:
  assumes "include_shape line g" and "include_shape line g'"
  shows "g = g'"
proof -
  from assms(1) obtain w1 w2 w3 c t
    where l: "line = w1 @ ''#'' @ w2 @ ''include'' @ w3 @ [CHR 0x22] @ g @ [CHR 0x22] @ [c] @ t"
      and a: "\<forall>c\<in>set w1. is_space c" "\<forall>c\<in>set w2. is_space c" "\<forall>c\<in>set w3. is_space c"
      and c: "is_space c" and t: "t = [] \<or> t = [LF]"
    unfolding include_shape_def list_all_iff by blast
  from assms(2) obtain v1 v2 v3 d u
    where l': "line = v1 @ ''#'' @ v2 @ ''include'' @ v3 @ [CHR 0x22] @ g' @ [CHR 0x22] @ [d] @ u"
      and a': "\<forall>c\<in>set v1. is_space c" "\<forall>c\<in>set v2. is_space c" "\<forall>c\<in>set v3. is_space c"
      and d: "is_space d" and u: "u = [] \<or> u = [LF]"
    unfolding include_shape_def list_all_iff by blast
  from l l' have "w1 @ CHR ''#'' # (w2 @ ''include'' @ w3 @ [CHR 0x22] @ g @ [CHR 0x22] @ [c] @ t)
      = v1 @ CHR ''#'' # (v2 @ ''include'' @ v3 @ [CHR 0x22] @ g' @ [CHR 0x22] @ [d] @ u)"
    by simp
  from span_unique [OF this a(1) a'(1)]
  have "w2 @ CHR ''i'' # (''nclude'' @ w3 @ [CHR 0x22] @ g @ [CHR 0x22] @ [c] @ t)
      = v2 @ CHR ''i'' # (''nclude'' @ v3 @ [CHR 0x22] @ g' @ [CHR 0x22] @ [d] @ u)"
    by simp
  from span_unique [OF this a(2) a'(2)]
  have "w3 @ CHR 0x22 # (g @ [CHR 0x22] @ [c] @ t) = v3 @ CHR 0x22 # (g' @ [CHR 0x22] @ [d] @ u)"
    by simp
  from span_unique [OF this a(3) a'(3)]
  have e: "g @ [CHR 0x22, c] @ t = g' @ [CHR 0x22, d] @ u"
    by simp
  from t u consider "t = u" | "t = []" "u = [LF]" | "t = [LF]" "u = []" by blast
  then show ?thesis
  proof cases
    case 1
    with e show ?thesis by simp
  next
    case 2
    with e have "(g @ [CHR 0x22]) @ [c] = (g' @ [CHR 0x22, d]) @ [LF]" by simp
    then have "g @ [CHR 0x22] = g' @ [CHR 0x22, d]" by (simp only: append1_eq_conv)
    then have "g @ [CHR 0x22] = (g' @ [CHR 0x22]) @ [d]" by simp
    then have "CHR 0x22 = d" by (simp only: append1_eq_conv)
    with d show ?thesis by auto
  next
    case 3
    with e have "(g @ [CHR 0x22, c]) @ [LF] = (g' @ [CHR 0x22]) @ [d]" by simp
    then have "g @ [CHR 0x22, c] = g' @ [CHR 0x22]" by (simp only: append1_eq_conv)
    then have "(g @ [CHR 0x22]) @ [c] = g' @ [CHR 0x22]" by simp
    then have "c = CHR 0x22" by (simp only: append1_eq_conv)
    with c show ?thesis by auto
  qed
qed

lemma re_match_Some:
  "re_match p line = Some gs \<Longrightarrow> accepts p line [] gs"
  unfolding re_match_def accepts_def
  by (auto split: list.splits)

lemma re_match_None:
  "re_match p line = None \<Longrightarrow> \<not> accepts p line [] gs"
  unfolding re_match_def accepts_def
  by (auto split: list.splits)

lemma amalgamate_include_match_iff:
  "amalgamate_include_match line = Some g \<longleftrightarrow> include_shape line g"
proof
  assume "amalgamate_include_match line = Some g"
  then obtain gs where "re_match amalgamate_include line = Some (g # gs)"
    unfolding amalgamate_include_match_def by (auto split: option.splits list.splits)
  then have "accepts amalgamate_include line [] (g # gs)" by (rule re_match_Some)
  then show "include_shape line g" by (auto simp: accepts_shape)
next
  assume sh: "include_shape line g"
  then have "accepts amalgamate_include line [] [g]" by (simp add: accepts_shape)
  then obtain gs where m: "re_match amalgamate_include line = Some gs"
    using re_match_None by (cases "re_match amalgamate_include line") blast+
  then have "accepts amalgamate_include line [] gs" by (rule re_match_Some)
  then obtain g' where "gs = [g']" "include_shape line g'" by (auto simp: accepts_shape)
  with sh m show "amalgamate_include_match line = Some g"
    unfolding amalgamate_include_match_def by (simp add: include_shape_unique [OF sh])
qed

lemma rparen_never_matches:
  assumes "CHR '')'' \<in> set line"
  shows "amalgamate_include_match line = None"
proof (rule ccontr)
  assume "amalgamate_include_match line \<noteq> None"
  then obtain g where "include_shape line g"
    by (auto simp: amalgamate_include_match_iff)
  then obtain w1 w2 w3 c t
    where l: "line = w1 @ ''#'' @ w2 @ ''include'' @ w3 @ [CHR 0x22] @ g @ [CHR 0x22] @ [c] @ t"
      and a: "\<forall>c\<in>set w1. is_space c" "\<forall>c\<in>set w2. is_space c" "\<forall>c\<in>set w3. is_space c"
      and g: "CHR '')'' \<notin> set g"
      and c: "is_space c" and t: "t = [] \<or> t = [LF]"
    unfolding include_shape_def list_all_iff by blast
  from assms l a g c t show False
    by (auto simp: LF_def)
qed

lemma amalgamate_Suc:
  "amalgamate (Suc depth) os filename src_root git_id s =
     (if path_realpath os filename \<in> set (already_included s) then Some (Returned, banners git_id s)
      else case open_r os filename of
        Opened text \<Rightarrow>
          (case amalgamate_lines depth os (srcdir_of os filename) src_root git_id (text_lines text)
                  (stream_write (Begin (rel_path_of os src_root filename))
                    (record_path (path_realpath os filename) (banners git_id s))) of
             None \<Rightarrow> None
           | Some (Raised, s4) \<Rightarrow> Some (Raised, s4)
           | Some (Returned, s4) \<Rightarrow>
               Some (Returned, stream_write (End (rel_path_of os src_root filename)) s4))
      | FileNotFoundError \<Rightarrow>
          Some (Returned, stream_write (Error_Line filename)
            (print (warning filename) (record_path (path_realpath os filename) (banners git_id s))))
      | OSError \<Rightarrow> Some (Raised, record_path (path_realpath os filename) (banners git_id s)))"
  by (cases "open_r os filename")
    (simp_all add: amalgamate.simps(2) Let_def banners_def record_path_def rel_path_of_def
      srcdir_of_def warning_def stream_write_def split: option.splits prod.splits outcome.splits)

declare amalgamate.simps(2) [simp del]

lemma amalgamate_lines_Cons:
  "amalgamate_lines depth os srcdir src_root git_id (source_line # rest) s =
     (case amalgamate_include_match source_line of
        None \<Rightarrow> amalgamate_lines depth os srcdir src_root git_id rest
                  (stream_write (Plain_Line source_line) s)
      | Some group1 \<Rightarrow>
          if path_exists os (path_join os srcdir group1) then
            (case amalgamate depth os (path_join os srcdir group1) src_root git_id s of
               None \<Rightarrow> None
             | Some (Raised, s') \<Rightarrow> Some (Raised, s')
             | Some (Returned, s') \<Rightarrow> amalgamate_lines depth os srcdir src_root git_id rest s')
          else amalgamate_lines depth os srcdir src_root git_id rest
                 (stream_write (Include_Line source_line) s))"
  by (simp add: amalgamate_lines.simps(2) Let_def split: option.splits)

declare amalgamate_lines.simps(2) [simp del]

lemma lines_sound:
  assumes "\<And>f s r s'. amalgamate d os f root git s = Some (r, s') \<Longrightarrow> amalgamated os root git f s r s'"
  shows "amalgamate_lines d os dir root git ls s = Some (r, s') \<Longrightarrow>
         lines_amalgamated os root git dir ls s r s'"
proof (induction ls arbitrary: s)
  case Nil
  then show ?case by (auto intro: finished)
next
  case (Cons l ls)
  show ?case
  proof (cases "amalgamate_include_match l")
    case None
    with Cons show ?thesis by (auto simp: amalgamate_lines_Cons intro: plain)
  next
    case (Some p)
    show ?thesis
    proof (cases "path_exists os (path_join os dir p)")
      case False
      with Some Cons show ?thesis by (auto simp: amalgamate_lines_Cons intro: missing)
    next
      case True
      with Some Cons.prems obtain o1 s1 where
        c: "amalgamate d os (path_join os dir p) root git s = Some (o1, s1)"
        by (auto simp: amalgamate_lines_Cons split: option.splits)
      then have a: "amalgamated os root git (path_join os dir p) s o1 s1" by (rule assms)
      show ?thesis
      proof (cases o1)
        case Returned
        with c True Some Cons.prems
        have "amalgamate_lines d os dir root git ls s1 = Some (r, s')"
          by (simp add: amalgamate_lines_Cons)
        then have "lines_amalgamated os root git dir ls s1 r s'" by (rule Cons.IH)
        with a Returned Some True show ?thesis by (auto intro: inlined)
      next
        case Raised
        with c True Some Cons.prems have "r = Raised" "s' = s1"
          by (simp_all add: amalgamate_lines_Cons)
        with a Raised Some True show ?thesis by (auto intro: propagated)
      qed
    qed
  qed
qed

lemma amalgamate_sound:
  "amalgamate d os f root git s = Some (r, s') \<Longrightarrow> amalgamated os root git f s r s'"
proof (induction d arbitrary: f s r s')
  case 0
  then show ?case by simp
next
  case (Suc d)
  show ?case
  proof (cases "path_realpath os f \<in> set (already_included s)")
    case True
    with Suc.prems show ?thesis by (auto simp: amalgamate_Suc intro: seen)
  next
    case False
    show ?thesis
    proof (cases "open_r os f")
      case (Opened content)
      with False Suc.prems obtain o4 s4 where
        l: "amalgamate_lines d os (srcdir_of os f) root git (text_lines content)
              (stream_write (Begin (rel_path_of os root f))
                (record_path (path_realpath os f) (banners git s))) = Some (o4, s4)"
        by (auto simp: amalgamate_Suc split: option.splits)
      then have la: "lines_amalgamated os root git (srcdir_of os f) (text_lines content)
              (stream_write (Begin (rel_path_of os root f))
                (record_path (path_realpath os f) (banners git s))) o4 s4"
        using Suc.IH by (rule lines_sound [rotated])
      show ?thesis
      proof (cases o4)
        case Returned
        with l Opened False Suc.prems
        have "r = Returned" "s' = stream_write (End (rel_path_of os root f)) s4"
          by (simp_all add: amalgamate_Suc)
        with la Returned Opened False show ?thesis by (auto intro: expanded)
      next
        case Raised
        with l Opened False Suc.prems have "r = Raised" "s' = s4"
          by (simp_all add: amalgamate_Suc)
        with la Raised Opened False show ?thesis by (auto intro: aborted)
      qed
    next
      case FileNotFoundError
      with False Suc.prems show ?thesis by (auto simp: amalgamate_Suc intro: not_found)
    next
      case OSError
      with False Suc.prems show ?thesis by (auto simp: amalgamate_Suc intro: os_error)
    qed
  qed
qed

lemma state_simps [simp]:
  "stream (stream_write w s) = stream s @ [w]"
  "already_included (stream_write w s) = already_included s"
  "console (stream_write w s) = console s"
  "stream (print m s) = stream s"
  "already_included (print m s) = already_included s"
  "console (print m s) = console s @ [m]"
  "stream (record_path p s) = stream s"
  "already_included (record_path p s) = already_included s @ [p]"
  "console (record_path p s) = console s"
  "stream (banners g s) = stream s @ [Banner, Git_Id g]"
  "already_included (banners g s) = already_included s"
  "console (banners g s) = console s"
  by (simp_all add: stream_write_def print_def record_path_def banners_def)

text \<open>What a call adds to the stream and to the record.\<close>

lemma grows:
  "amalgamated os root git f s r s' \<Longrightarrow>
     (\<exists>ws. stream s' = stream s @ Banner # Git_Id git # ws) \<and>
     (\<exists>ps. already_included s' = already_included s @ ps) \<and>
     (\<exists>cs. console s' = console s @ cs)"
  "lines_amalgamated os root git dir ls s r s' \<Longrightarrow>
     (\<exists>ws. stream s' = stream s @ ws) \<and>
     (\<exists>ps. already_included s' = already_included s @ ps) \<and>
     (\<exists>cs. console s' = console s @ cs)"
proof (induction rule: amalgamated_lines_amalgamated.inducts)
  case (inlined source_line group1 srcdir s s1 rest r s')
  then show ?case by (elim conjE exE) simp
qed (auto)

lemma recorded:
  "amalgamated os root git f s r s' \<Longrightarrow> path_realpath os f \<in> set (already_included s')"
proof (induction rule: amalgamated_lines_amalgamated.inducts(1)
    [where ?P2.0 = "\<lambda>dir ls s r s'. True"])
  case (expanded filename s content s4)
  from grows(2) [OF expanded(3)] show ?case by auto
next
  case (aborted filename s content s4)
  from grows(2) [OF aborted(3)] show ?case by auto
qed auto

lemma rel_path_of_display: "rel_path_of os root f = display os root (path_realpath os f)"
  by (simp add: rel_path_of_def display_def)

lemma errors_simps [simp]:
  "errors os c [] = 0"
  "errors os c (ws @ vs) = errors os c ws + errors os c vs"
  "errors os c (Error_Line f # ws) = (if path_realpath os f = c then 1 else 0) + errors os c ws"
  "errors os c (Banner # ws) = errors os c ws"
  "errors os c (Git_Id g # ws) = errors os c ws"
  "errors os c (Begin b # ws) = errors os c ws"
  "errors os c (End b # ws) = errors os c ws"
  "errors os c (Plain_Line l # ws) = errors os c ws"
  "errors os c (Include_Line l # ws) = errors os c ws"
  by (simp_all add: errors_def)

lemma shown_simps [simp]:
  "shown os root r [] = 0"
  "shown os root r (ps @ qs) = shown os root r ps + shown os root r qs"
  "shown os root r (p # ps) = (if display os root p = r then 1 else 0) + shown os root r ps"
  by (simp_all add: shown_def)

lemma accounts_refl: "accounts os root s s"
  unfolding accounts_def by (intro exI [of _ "[]"]) simp

lemma accounts_trans:
  assumes "accounts os root s s1" and "accounts os root s1 s2"
  shows "accounts os root s s2"
proof -
  from assms(1) obtain ws ps where 1: "stream s1 = stream s @ ws"
    "already_included s1 = already_included s @ ps" "distinct ps"
    "set ps \<inter> set (already_included s) = {}" "\<forall>c. errors os c ws \<le> count_list ps c"
    "\<forall>r. count_list ws (Begin r) \<le> shown os root r ps"
    unfolding accounts_def by blast
  from assms(2) obtain vs qs where 2: "stream s2 = stream s1 @ vs"
    "already_included s2 = already_included s1 @ qs" "distinct qs"
    "set qs \<inter> set (already_included s1) = {}" "\<forall>c. errors os c vs \<le> count_list qs c"
    "\<forall>r. count_list vs (Begin r) \<le> shown os root r qs"
    unfolding accounts_def by blast
  have "stream s2 = stream s @ (ws @ vs)" using 1 2 by simp
  moreover have "already_included s2 = already_included s @ (ps @ qs)" using 1 2 by simp
  moreover have "distinct (ps @ qs)" using 1 2 by auto
  moreover have "set (ps @ qs) \<inter> set (already_included s) = {}" using 1 2 by auto
  moreover have "\<forall>c. errors os c (ws @ vs) \<le> count_list (ps @ qs) c"
    using 1(5) 2(5) by (simp add: add_mono)
  moreover have "\<forall>r. count_list (ws @ vs) (Begin r) \<le> shown os root r (ps @ qs)"
    using 1(6) 2(6) by (simp add: add_mono)
  ultimately show ?thesis unfolding accounts_def by blast
qed

lemma accounts_seen: "accounts os root s (banners git s)"
  unfolding accounts_def
  by (intro exI [of _ "[Banner, Git_Id git]"] exI [of _ "[]"]) simp

lemma accounts_plain: "accounts os root s (stream_write (Plain_Line l) s)"
  unfolding accounts_def
  by (intro exI [of _ "[Plain_Line l]"] exI [of _ "[]"]) simp

lemma accounts_include: "accounts os root s (stream_write (Include_Line l) s)"
  unfolding accounts_def
  by (intro exI [of _ "[Include_Line l]"] exI [of _ "[]"]) simp

lemma accounts_end: "accounts os root s (stream_write (End l) s)"
  unfolding accounts_def
  by (intro exI [of _ "[End l]"] exI [of _ "[]"]) simp

lemma accounts_not_found:
  "path_realpath os f \<notin> set (already_included s) \<Longrightarrow>
   accounts os root s
     (stream_write (Error_Line f) (print m (record_path (path_realpath os f) (banners git s))))"
  unfolding accounts_def
  by (intro exI [of _ "[Banner, Git_Id git, Error_Line f]"] exI [of _ "[path_realpath os f]"]) simp

lemma accounts_os_error:
  "path_realpath os f \<notin> set (already_included s) \<Longrightarrow>
   accounts os root s (record_path (path_realpath os f) (banners git s))"
  unfolding accounts_def
  by (intro exI [of _ "[Banner, Git_Id git]"] exI [of _ "[path_realpath os f]"]) simp

lemma accounts_begin:
  "path_realpath os f \<notin> set (already_included s) \<Longrightarrow>
   accounts os root s
     (stream_write (Begin (rel_path_of os root f)) (record_path (path_realpath os f) (banners git s)))"
  unfolding accounts_def
  by (intro exI [of _ "[Banner, Git_Id git, Begin (rel_path_of os root f)]"]
      exI [of _ "[path_realpath os f]"]) (simp add: rel_path_of_display)

lemma accounting:
  "amalgamated os root git f s r s' \<Longrightarrow> accounts os root s s'"
  "lines_amalgamated os root git dir ls s r s' \<Longrightarrow> accounts os root s s'"
proof (induction rule: amalgamated_lines_amalgamated.inducts)
  case (seen filename s)
  show ?case by (rule accounts_seen)
next
  case (not_found filename s)
  then show ?case by (simp add: accounts_not_found)
next
  case (os_error filename s)
  then show ?case by (simp add: accounts_os_error)
next
  case (expanded filename s content s4)
  then show ?case
    by (blast intro: accounts_trans accounts_begin accounts_end)
next
  case (aborted filename s content s4)
  then show ?case by (blast intro: accounts_trans accounts_begin)
next
  case (finished srcdir s)
  show ?case by (rule accounts_refl)
next
  case (plain source_line srcdir rest s r s')
  then show ?case by (blast intro: accounts_trans accounts_plain)
next
  case (missing source_line group1 srcdir rest s r s')
  then show ?case by (blast intro: accounts_trans accounts_include)
next
  case (inlined source_line group1 srcdir s s1 rest r s')
  then show ?case by (blast intro: accounts_trans)
next
  case (propagated source_line group1 srcdir s s1 rest)
  then show ?case by simp
qed

lemma lines_more_fuel:
  assumes "\<And>f s x. amalgamate d os f root git s = Some x \<Longrightarrow> amalgamate d' os f root git s = Some x"
  shows "amalgamate_lines d os dir root git ls s = Some x \<Longrightarrow>
         amalgamate_lines d' os dir root git ls s = Some x"
proof (induction ls arbitrary: s)
  case Nil
  then show ?case by simp
next
  case (Cons l ls)
  show ?case
  proof (cases "amalgamate_include_match l")
    case None
    with Cons show ?thesis by (simp add: amalgamate_lines_Cons)
  next
    case (Some p)
    show ?thesis
    proof (cases "path_exists os (path_join os dir p)")
      case False
      with Some Cons show ?thesis by (simp add: amalgamate_lines_Cons)
    next
      case True
      with Some Cons.prems obtain o1 s1 where
        c: "amalgamate d os (path_join os dir p) root git s = Some (o1, s1)"
        by (auto simp: amalgamate_lines_Cons split: option.splits)
      then have c': "amalgamate d' os (path_join os dir p) root git s = Some (o1, s1)"
        by (rule assms)
      show ?thesis
      proof (cases o1)
        case Returned
        with c True Some Cons.prems
        have "amalgamate_lines d os dir root git ls s1 = Some x"
          by (simp add: amalgamate_lines_Cons)
        then have "amalgamate_lines d' os dir root git ls s1 = Some x" by (rule Cons.IH)
        with c' Returned Some True show ?thesis by (simp add: amalgamate_lines_Cons)
      next
        case Raised
        with c c' True Some Cons.prems show ?thesis
          by (auto simp: amalgamate_lines_Cons)
      qed
    qed
  qed
qed

lemma amalgamate_Suc_fuel:
  "amalgamate d os f root git s = Some x \<Longrightarrow> amalgamate (Suc d) os f root git s = Some x"
proof (induction d arbitrary: f s x)
  case 0
  then show ?case by simp
next
  case (Suc d)
  have l: "amalgamate_lines d os dir root git ls t = Some y \<Longrightarrow>
           amalgamate_lines (Suc d) os dir root git ls t = Some y" for dir ls t y
    using Suc.IH by (rule lines_more_fuel)
  from Suc.prems show ?case
    unfolding amalgamate_Suc [of d] amalgamate_Suc [of "Suc d"]
    by (auto split: if_splits opened.splits option.splits outcome.splits dest!: l)
qed

lemma amalgamate_more_fuel:
  "amalgamate d os f root git s = Some x \<Longrightarrow> d \<le> d' \<Longrightarrow> amalgamate d' os f root git s = Some x"
  by (induction d' ) (auto simp: le_Suc_eq amalgamate_Suc_fuel)

lemma lines_terminate:
  assumes fin: "finite C"
    and cover: "\<forall>p. path_exists os p \<longrightarrow> path_realpath os p \<in> C"
    and call: "\<And>f s. path_realpath os f \<in> C \<Longrightarrow> card (C - set (already_included s)) < d \<Longrightarrow>
                 \<exists>x. amalgamate d os f root git s = Some x"
  shows "card (C - set (already_included s)) < d \<Longrightarrow>
         \<exists>x. amalgamate_lines d os dir root git ls s = Some x"
proof (induction ls arbitrary: s)
  case Nil
  then show ?case by simp
next
  case (Cons l ls)
  show ?case
  proof (cases "amalgamate_include_match l")
    case None
    with Cons show ?thesis by (simp add: amalgamate_lines_Cons)
  next
    case (Some p)
    show ?thesis
    proof (cases "path_exists os (path_join os dir p)")
      case False
      with Some Cons show ?thesis by (simp add: amalgamate_lines_Cons)
    next
      case True
      with cover have "path_realpath os (path_join os dir p) \<in> C" by blast
      from call [OF this Cons.prems] obtain o1 s1 where
        c: "amalgamate d os (path_join os dir p) root git s = Some (o1, s1)"
        by auto
      show ?thesis
      proof (cases o1)
        case Raised
        with c True Some show ?thesis by (simp add: amalgamate_lines_Cons)
      next
        case Returned
        from c have "amalgamated os root git (path_join os dir p) s o1 s1"
          by (rule amalgamate_sound)
        from grows(1) [OF this] have "set (already_included s) \<subseteq> set (already_included s1)"
          by auto
        then have "C - set (already_included s1) \<subseteq> C - set (already_included s)" by blast
        with fin have "card (C - set (already_included s1)) \<le> card (C - set (already_included s))"
          by (intro card_mono) auto
        with Cons.prems have "card (C - set (already_included s1)) < d" by simp
        from Cons.IH [OF this] c Returned True Some show ?thesis
          by (simp add: amalgamate_lines_Cons)
      qed
    qed
  qed
qed

lemma nested_terminates:
  assumes fin: "finite C"
    and cover: "\<forall>p. path_exists os p \<longrightarrow> path_realpath os p \<in> C"
  shows "path_realpath os f \<in> C \<Longrightarrow> card (C - set (already_included s)) < d \<Longrightarrow>
         \<exists>x. amalgamate d os f root git s = Some x"
proof (induction d arbitrary: f s)
  case 0
  then show ?case by simp
next
  case (Suc d)
  show ?case
  proof (cases "path_realpath os f \<in> set (already_included s)")
    case True
    then show ?thesis by (simp add: amalgamate_Suc)
  next
    case False
    let ?s3 = "stream_write (Begin (rel_path_of os root f))
                 (record_path (path_realpath os f) (banners git s))"
    have "C - set (already_included ?s3) = (C - set (already_included s)) - {path_realpath os f}"
      by auto
    moreover have "path_realpath os f \<in> C - set (already_included s)"
      using False Suc.prems by simp
    ultimately have "card (C - set (already_included ?s3)) < card (C - set (already_included s))"
      using fin by (simp only: card_Diff1_less finite_Diff)
    with Suc.prems have "card (C - set (already_included ?s3)) < d" by simp
    with lines_terminate [OF fin cover Suc.IH]
    have t: "\<exists>x. amalgamate_lines d os (srcdir_of os f) root git ls ?s3 = Some x" for ls
      by blast
    show ?thesis
    proof (cases "open_r os f")
      case (Opened content)
      from t [of "text_lines content"] obtain o4 s4 where
        "amalgamate_lines d os (srcdir_of os f) root git (text_lines content) ?s3 = Some (o4, s4)"
        by auto
      with False Opened show ?thesis
        by (cases o4) (simp_all add: amalgamate_Suc)
    next
      case FileNotFoundError
      with False show ?thesis by (simp add: amalgamate_Suc)
    next
      case OSError
      with False show ?thesis by (simp add: amalgamate_Suc)
    qed
  qed
qed

lemma amalgamate_terminates:
  assumes fin: "finite C"
    and cover: "\<forall>p. path_exists os p \<longrightarrow> path_realpath os p \<in> C"
    and fuel: "card (C - set (already_included s)) < d"
  shows "\<exists>x. amalgamate (Suc d) os f root git s = Some x"
proof (cases "path_realpath os f \<in> set (already_included s)")
  case True
  then show ?thesis by (simp add: amalgamate_Suc)
next
  case False
  let ?s3 = "stream_write (Begin (rel_path_of os root f))
               (record_path (path_realpath os f) (banners git s))"
  have "C - set (already_included ?s3) \<subseteq> C - set (already_included s)" by auto
  with fin have "card (C - set (already_included ?s3)) \<le> card (C - set (already_included s))"
    by (intro card_mono) auto
  with fuel have "card (C - set (already_included ?s3)) < d" by simp
  with lines_terminate [OF fin cover nested_terminates [OF fin cover]]
  have t: "\<exists>x. amalgamate_lines d os (srcdir_of os f) root git ls ?s3 = Some x" for ls
    by blast
  show ?thesis
  proof (cases "open_r os f")
    case (Opened content)
    from t [of "text_lines content"] obtain o4 s4 where
      "amalgamate_lines d os (srcdir_of os f) root git (text_lines content) ?s3 = Some (o4, s4)"
      by auto
    with False Opened show ?thesis
      by (cases o4) (simp_all add: amalgamate_Suc)
  next
    case FileNotFoundError
    with False show ?thesis by (simp add: amalgamate_Suc)
  next
    case OSError
    with False show ?thesis by (simp add: amalgamate_Suc)
  qed
qed

lemma inlines_same:
  assumes "same_file os" and "path_realpath os g = path_realpath os f"
  shows "inlines os g h \<longleftrightarrow> inlines os f h"
proof -
  from assms have "open_r os g = open_r os f" unfolding same_file_def by blast
  moreover from assms(2) have "srcdir_of os g = srcdir_of os f" by (simp add: srcdir_of_def)
  ultimately show ?thesis by (simp add: inlines_def)
qed

lemma expanded_in_same:
  assumes "same_file os" and "path_realpath os g = path_realpath os f"
  shows "expanded_in os root g ws \<longleftrightarrow> expanded_in os root f ws"
proof -
  from assms have "open_r os g = open_r os f" unfolding same_file_def by blast
  moreover from assms(2) have "rel_path_of os root g = rel_path_of os root f"
    by (simp add: rel_path_of_def)
  ultimately show ?thesis by (simp add: expanded_in_def)
qed

lemma expanded_in_mono:
  "expanded_in os root g ws \<Longrightarrow> set ws \<subseteq> set vs \<Longrightarrow> expanded_in os root g vs"
  unfolding expanded_in_def by blast

lemma covered_refl: "already_included s' = already_included s \<Longrightarrow> covered os root s s'"
  by (simp add: covered_def)

lemma covered_trans:
  assumes "covered os root s s1" and "covered os root s1 s2"
    and "set (already_included s1) \<subseteq> set (already_included s2)"
    and "set (stream s1) \<subseteq> set (stream s2)"
  shows "covered os root s s2"
  unfolding covered_def
proof (intro allI impI)
  fix g assume g: "path_realpath os g \<in> set (already_included s2) - set (already_included s)"
  show "(\<forall>h. inlines os g h \<longrightarrow> path_realpath os h \<in> set (already_included s2)) \<and>
        ((\<exists>content. open_r os g = Opened content) \<longrightarrow> expanded_in os root g (stream s2))"
  proof (cases "path_realpath os g \<in> set (already_included s1)")
    case True
    with g assms(1) have "\<forall>h. inlines os g h \<longrightarrow> path_realpath os h \<in> set (already_included s1)"
      and "(\<exists>content. open_r os g = Opened content) \<longrightarrow> expanded_in os root g (stream s1)"
      unfolding covered_def by blast+
    with assms(3,4) show ?thesis by (blast intro: expanded_in_mono)
  next
    case False
    with g assms(2) show ?thesis unfolding covered_def by blast
  qed
qed

lemma lines_done_mono:
  "lines_done os dir ls s1 \<Longrightarrow> set (already_included s1) \<subseteq> set (already_included s2) \<Longrightarrow>
   set (stream s1) \<subseteq> set (stream s2) \<Longrightarrow> lines_done os dir ls s2"
  unfolding lines_done_def by blast

lemma grows_sets:
  "amalgamated os root git f s r s' \<Longrightarrow>
     set (stream s) \<subseteq> set (stream s') \<and> set (already_included s) \<subseteq> set (already_included s')"
  "lines_amalgamated os root git dir ls s r s' \<Longrightarrow>
     set (stream s) \<subseteq> set (stream s') \<and> set (already_included s) \<subseteq> set (already_included s')"
  using grows(1) [of os root git f s r s'] grows(2) [of os root git dir ls s r s'] by auto

lemma coverage:
  assumes sf: "same_file os"
  shows "amalgamated os root git f s r s' \<Longrightarrow> r = Returned \<longrightarrow> covered os root s s'"
    and "lines_amalgamated os root git dir ls s r s' \<Longrightarrow>
           r = Returned \<longrightarrow> covered os root s s' \<and> lines_done os dir ls s'"
proof (induct rule: amalgamated_lines_amalgamated.inducts)
  case (seen filename s)
  show ?case by (simp add: covered_refl)
next
  case (not_found filename s)
  have "covered os root s (stream_write (Error_Line filename)
      (print (warning filename) (record_path (path_realpath os filename) (banners git s))))"
    unfolding covered_def
  proof (intro allI impI)
    fix g
    assume "path_realpath os g \<in> set (already_included (stream_write (Error_Line filename)
      (print (warning filename) (record_path (path_realpath os filename) (banners git s))))) -
        set (already_included s)"
    then have "path_realpath os g = path_realpath os filename" by auto
    with sf have "open_r os g = open_r os filename" unfolding same_file_def by blast
    with not_found show "(\<forall>h. inlines os g h \<longrightarrow> path_realpath os h \<in> set (already_included
      (stream_write (Error_Line filename)
      (print (warning filename) (record_path (path_realpath os filename) (banners git s)))))) \<and>
      ((\<exists>content. open_r os g = Opened content) \<longrightarrow> expanded_in os root g (stream
      (stream_write (Error_Line filename)
      (print (warning filename) (record_path (path_realpath os filename) (banners git s))))))"
      by (simp add: inlines_def)
  qed
  then show ?case by simp
next
  case (os_error filename s)
  show ?case by simp
next
  case (expanded filename s content s4)
  let ?s3 = "stream_write (Begin (rel_path_of os root filename))
               (record_path (path_realpath os filename) (banners git s))"
  let ?s' = "stream_write (End (rel_path_of os root filename)) s4"
  from expanded(4) have c: "covered os root ?s3 s4"
    and d: "lines_done os (srcdir_of os filename) (text_lines content) s4"
    by simp_all
  from grows_sets(2) [OF expanded(3)]
  have g3: "set (stream ?s3) \<subseteq> set (stream s4)"
    "set (already_included ?s3) \<subseteq> set (already_included s4)"
    by simp_all
  have own: "expanded_in os root filename (stream ?s')"
    unfolding expanded_in_def using expanded(2) d g3(1)
    by (auto simp: lines_done_def)
  have inc: "inlines os filename h \<Longrightarrow> path_realpath os h \<in> set (already_included ?s')" for h
    using expanded(2) d by (auto simp: inlines_def lines_done_def)
  have "covered os root s ?s'"
    unfolding covered_def
  proof (intro allI impI)
    fix g
    assume g: "path_realpath os g \<in> set (already_included ?s') - set (already_included s)"
    show "(\<forall>h. inlines os g h \<longrightarrow> path_realpath os h \<in> set (already_included ?s')) \<and>
      ((\<exists>content. open_r os g = Opened content) \<longrightarrow> expanded_in os root g (stream ?s'))"
    proof (cases "path_realpath os g = path_realpath os filename")
      case True
      with sf own inc show ?thesis
        by (simp add: inlines_same [OF sf True] expanded_in_same [OF sf True])
    next
      case False
      with g have "path_realpath os g \<in> set (already_included s4) - set (already_included ?s3)"
        by simp
      with c have "\<forall>h. inlines os g h \<longrightarrow> path_realpath os h \<in> set (already_included s4)"
        and "(\<exists>content. open_r os g = Opened content) \<longrightarrow> expanded_in os root g (stream s4)"
        unfolding covered_def by blast+
      then show ?thesis by (auto intro: expanded_in_mono)
    qed
  qed
  then show ?case by simp
next
  case (aborted filename s content s4)
  show ?case by simp
next
  case (finished srcdir s)
  show ?case by (simp add: covered_refl lines_done_def)
next
  case (plain source_line srcdir rest s r s')
  show ?case
  proof
    assume r: "r = Returned"
    let ?s1 = "stream_write (Plain_Line source_line) s"
    from plain(3) r have c: "covered os root ?s1 s'" and d: "lines_done os srcdir rest s'"
      by simp_all
    from grows_sets(2) [OF plain(2)] have "Plain_Line source_line \<in> set (stream s')"
      by simp
    with d plain(1) have "lines_done os srcdir (source_line # rest) s'"
      by (simp add: lines_done_def)
    moreover from c have "covered os root s s'" by (simp add: covered_def)
    ultimately show "covered os root s s' \<and> lines_done os srcdir (source_line # rest) s'" by simp
  qed
next
  case (missing source_line group1 srcdir rest s r s')
  show ?case
  proof
    assume r: "r = Returned"
    let ?s1 = "stream_write (Include_Line source_line) s"
    from missing(4) r have c: "covered os root ?s1 s'" and d: "lines_done os srcdir rest s'"
      by simp_all
    from d missing(1,2) have "lines_done os srcdir (source_line # rest) s'"
      by (simp add: lines_done_def)
    moreover from c have "covered os root s s'" by (simp add: covered_def)
    ultimately show "covered os root s s' \<and> lines_done os srcdir (source_line # rest) s'" by simp
  qed
next
  case (inlined source_line group1 srcdir s s1 rest r s')
  show ?case
  proof
    assume r: "r = Returned"
    from inlined(4,6) r have c1: "covered os root s s1" and c2: "covered os root s1 s'"
      and d: "lines_done os srcdir rest s'"
      by simp_all
    from grows_sets(2) [OF inlined(5)]
    have g: "set (stream s1) \<subseteq> set (stream s')"
      "set (already_included s1) \<subseteq> set (already_included s')"
      by simp_all
    from recorded [OF inlined(3)] g(2)
    have "path_realpath os (path_join os srcdir group1) \<in> set (already_included s')" by blast
    with d inlined(1) have "lines_done os srcdir (source_line # rest) s'"
      by (simp add: lines_done_def)
    moreover from c1 c2 g have "covered os root s s'" by (blast intro: covered_trans)
    ultimately show "covered os root s s' \<and> lines_done os srcdir (source_line # rest) s'" by simp
  qed
next
  case (propagated source_line group1 srcdir s s1 rest)
  show ?case by simp
qed


lemma banners_eq: "banners git_id s = s\<lparr>stream := stream s @ [Banner, Git_Id git_id]\<rparr>"
  by (simp add: banners_def stream_write_def)

lemma seen_banners:
  "path_realpath os f \<in> set (already_included s) \<Longrightarrow>
   amalgamate (Suc d) os f root git s = Some (Returned, banners git s)"
  by (simp add: amalgamate_Suc)

lemma returns_Suc: "amalgamate d os f root git s = Some x \<Longrightarrow> \<exists>d'. d = Suc d'"
  by (cases d) simp_all

lemma concat_split_lines: "concat (split_lines acc cs) = acc @ cs"
  by (induction cs arbitrary: acc) simp_all

lemma concat_text_lines: "concat (text_lines content) = translate_newlines content"
  by (simp add: text_lines_def concat_split_lines)

lemma translate_no_CR: "CR \<notin> set content \<Longrightarrow> translate_newlines content = content"
  by (induction content rule: translate_newlines.induct) auto

lemma plain_only:
  "\<forall>l\<in>set ls. amalgamate_include_match l = None \<Longrightarrow>
   amalgamate_lines d os dir root git ls s =
     Some (Returned, s\<lparr>stream := stream s @ map Plain_Line ls\<rparr>)"
proof (induction ls arbitrary: s)
  case Nil
  then show ?case by simp
next
  case (Cons l ls)
  then show ?case by (simp add: amalgamate_lines_Cons stream_write_def)
qed

lemma first_occurrence:
  assumes "path_realpath os filename \<notin> set (already_included s)"
    and "open_r os filename = Opened content"
  shows "amalgamate (Suc depth) os filename src_root git_id s =
           (case amalgamate_lines depth os (path_dirname os (path_realpath os filename))
                   src_root git_id (text_lines content)
                   (s\<lparr>stream := stream s @
                         [Banner, Git_Id git_id,
                          Begin (replace_backslash
                            (path_relpath os (path_realpath os filename) src_root))],
                       already_included := already_included s @ [path_realpath os filename]\<rparr>) of
              None \<Rightarrow> None
            | Some (Raised, s4) \<Rightarrow> Some (Raised, s4)
            | Some (Returned, s4) \<Rightarrow>
                Some (Returned,
                  s4\<lparr>stream := stream s4 @
                       [End (replace_backslash
                         (path_relpath os (path_realpath os filename) src_root))]\<rparr>))"
proof -
  from assms have "amalgamate (Suc depth) os filename src_root git_id s =
      (case amalgamate_lines depth os (srcdir_of os filename) src_root git_id (text_lines content)
              (stream_write (Begin (rel_path_of os src_root filename))
                (record_path (path_realpath os filename) (banners git_id s))) of
         None \<Rightarrow> None
       | Some (Raised, s4) \<Rightarrow> Some (Raised, s4)
       | Some (Returned, s4) \<Rightarrow>
           Some (Returned, stream_write (End (rel_path_of os src_root filename)) s4))"
    by (simp add: amalgamate_Suc)
  moreover have "stream_write (Begin (rel_path_of os src_root filename))
                (record_path (path_realpath os filename) (banners git_id s)) =
      s\<lparr>stream := stream s @
            [Banner, Git_Id git_id,
             Begin (replace_backslash (path_relpath os (path_realpath os filename) src_root))],
          already_included := already_included s @ [path_realpath os filename]\<rparr>"
    by (simp add: banners_def record_path_def stream_write_def rel_path_of_def)
  moreover have "stream_write (End (rel_path_of os src_root filename)) s4 =
      s4\<lparr>stream := stream s4 @
          [End (replace_backslash (path_relpath os (path_realpath os filename) src_root))]\<rparr>" for s4
    by (simp add: stream_write_def rel_path_of_def)
  ultimately show ?thesis by (simp only: srcdir_of_def)
qed

lemma cyclic_canonical:
  "\<forall>p. path_exists cyclic p \<longrightarrow>
     path_realpath cyclic p \<in> set [''/repo/simde/a.h'', ''/repo/simde/b.h'', ''/repo/simde'', ''/repo'', ''/'']"
  by (auto simp: cyclic_def posix_def)

lemma posix_same_file: "same_file (posix cwd dirs files)"
proof (unfold same_file_def, intro allI impI)
  fix f g
  assume "path_realpath (posix cwd dirs files) f = path_realpath (posix cwd dirs files) g"
  then have "posix_abspath cwd f = posix_abspath cwd g" by (simp add: posix_def)
  then show "open_r (posix cwd dirs files) f = open_r (posix cwd dirs files) g" by (auto simp: posix_def)
qed

lemma equal_elements_length:
  "distinct xs \<Longrightarrow> \<forall>x\<in>set xs. x = a \<Longrightarrow> length xs \<le> 1"
  by (cases xs; cases "tl xs") auto

lemma shown_at_most_once:
  assumes "distinct ps" and "inj_on (display os root) (set ps)" and "c \<in> set ps"
  shows "shown os root (display os root c) ps \<le> 1"
proof -
  have "distinct (filter (\<lambda>x. display os root x = display os root c) ps)"
    using assms(1) by simp
  moreover have "\<forall>x\<in>set (filter (\<lambda>x. display os root x = display os root c) ps). x = c"
    using assms(2,3) by (auto dest: inj_onD)
  ultimately show ?thesis unfolding shown_def by (rule equal_elements_length)
qed

text \<open>
  In a run from the empty record that returns, the begin marker of every recorded file
  that can be opened is written exactly once, when the display paths tell the recorded
  files apart.
\<close>

lemma expanded_once:
  assumes run: "amalgamated os root git f start Returned s'"
    and sf: "same_file os"
    and inj: "inj_on (display os root) (set (already_included s'))"
    and g: "path_realpath os g \<in> set (already_included s')" "open_r os g = Opened content"
  shows "count_list (stream s') (Begin (rel_path_of os root g)) = 1 \<and>
         expanded_in os root g (stream s')"
proof -
  from accounting(1) [OF run] obtain ws ps where a: "stream s' = stream start @ ws"
    "already_included s' = already_included start @ ps" "distinct ps"
    "\<forall>r. count_list ws (Begin r) \<le> shown os root r ps"
    unfolding accounts_def by blast
  then have w: "ws = stream s'" and p: "ps = already_included s'" by (simp_all add: start_def)
  from coverage(1) [OF sf run] have "covered os root start s'" by simp
  with g have e: "expanded_in os root g (stream s')"
    unfolding covered_def by (auto simp: start_def)
  then have "Begin (rel_path_of os root g) \<in> set (stream s')" by (auto simp: expanded_in_def)
  then have "count_list (stream s') (Begin (rel_path_of os root g)) \<noteq> 0"
    by (simp add: count_list_0_iff)
  moreover from a(4) w p
  have "count_list (stream s') (Begin (rel_path_of os root g)) \<le>
          shown os root (display os root (path_realpath os g)) (already_included s')"
    by (simp add: rel_path_of_display)
  moreover from shown_at_most_once [OF _ inj g(1)] a(3) p
  have "shown os root (display os root (path_realpath os g)) (already_included s') \<le> 1"
    by simp
  ultimately show ?thesis using e by simp
qed

lemma translated_no_CR: "CR \<notin> set (translate_newlines content)"
  by (induction content rule: translate_newlines.induct) (auto simp: CR_def LF_def)

lemma text_lines_no_CR: "l \<in> set (text_lines content) \<Longrightarrow> CR \<notin> set l"
proof
  assume "l \<in> set (text_lines content)" and "CR \<in> set l"
  then have "CR \<in> set (concat (text_lines content))" by auto
  then show False by (simp add: concat_text_lines translated_no_CR)
qed

lemma cyclic_run:
  "amalgamate 3 cyclic ''simde/a.h'' ''/repo'' ''abc'' start = Some (Returned, cyclic_result)"
  by code_simp

lemma vanishing_run:
  "amalgamate 2 vanishing ''simde/a.h'' ''/repo'' ''abc'' start = Some (Returned, vanishing_result)"
  by code_simp

text \<open>
  Claim C1. A call of \<open>amalgamate\<close> on a file whose canonical path is in the record
  returns with the two banner lines written, the fixed notice and then the line with the
  version tag, and nothing else changed. A call on a file whose canonical path is not in the
  record, and that can be opened, is the first occurrence: it writes the banner lines,
  records the path, writes the begin marker, runs the loop over the lines of the file and
  writes the end marker. Every call that ends has written the banner lines first and leaves
  the canonical path in the record, so every later call of the run for a name with this
  canonical path writes the banner lines only; the paths a call adds to the record are
  distinct and new, and the begin markers it writes are no more than the added paths they
  name; in a call that returns, every added file that can be opened has its begin marker,
  its plain lines and its end marker in the stream. In a run from the empty record that
  returns, the begin marker of a recorded file that can be opened is there exactly once
  (display paths telling the recorded files apart). A call ends when the existing files have
  finitely many canonical paths and the depth bound is above their number.
\<close>

theorem duplicate_suppression:
  "(path_realpath os filename \<in> set (already_included s) \<longrightarrow>
      amalgamate (Suc depth) os filename src_root git_id s =
        Some (Returned, s\<lparr>stream := stream s @ [Banner, Git_Id git_id]\<rparr>)) \<and>
   (path_realpath os filename \<notin> set (already_included s) \<and>
    open_r os filename = Opened content \<longrightarrow>
      amalgamate (Suc depth) os filename src_root git_id s =
        (case amalgamate_lines depth os (path_dirname os (path_realpath os filename))
                src_root git_id (text_lines content)
                (s\<lparr>stream := stream s @
                      [Banner, Git_Id git_id,
                       Begin (replace_backslash
                         (path_relpath os (path_realpath os filename) src_root))],
                    already_included := already_included s @ [path_realpath os filename]\<rparr>) of
           None \<Rightarrow> None
         | Some (Raised, s4) \<Rightarrow> Some (Raised, s4)
         | Some (Returned, s4) \<Rightarrow>
             Some (Returned,
               s4\<lparr>stream := stream s4 @
                    [End (replace_backslash
                      (path_relpath os (path_realpath os filename) src_root))]\<rparr>))) \<and>
   (amalgamate depth os filename src_root git_id s = Some (r, s') \<longrightarrow>
      (\<exists>ws. stream s' = stream s @ Banner # Git_Id git_id # ws) \<and>
      path_realpath os filename \<in> set (already_included s') \<and>
      (\<forall>d f s2. set (already_included s') \<subseteq> set (already_included s2) \<and>
         path_realpath os f = path_realpath os filename \<longrightarrow>
         amalgamate (Suc d) os f src_root git_id s2 =
           Some (Returned, s2\<lparr>stream := stream s2 @ [Banner, Git_Id git_id]\<rparr>)) \<and>
      accounts os src_root s s' \<and>
      (r = Returned \<and> same_file os \<longrightarrow> covered os src_root s s')) \<and>
   (amalgamate depth os filename src_root git_id
      \<lparr>stream = [], already_included = [], console = []\<rparr> = Some (Returned, s') \<and>
    same_file os \<and> inj_on (display os src_root) (set (already_included s')) \<and>
    path_realpath os g \<in> set (already_included s') \<and> open_r os g = Opened content \<longrightarrow>
      count_list (stream s') (Begin (rel_path_of os src_root g)) = 1 \<and>
      expanded_in os src_root g (stream s')) \<and>
   ((\<forall>p. path_exists os p \<longrightarrow> path_realpath os p \<in> set canonical) \<and>
    length canonical + 2 \<le> depth \<longrightarrow>
      (\<exists>r s'. amalgamate depth os filename src_root git_id s = Some (r, s')))"
proof (intro conjI impI)
  assume "path_realpath os filename \<in> set (already_included s)"
  then show "amalgamate (Suc depth) os filename src_root git_id s =
        Some (Returned, s\<lparr>stream := stream s @ [Banner, Git_Id git_id]\<rparr>)"
    by (simp add: seen_banners banners_eq)
next
  assume "path_realpath os filename \<notin> set (already_included s) \<and>
    open_r os filename = Opened content"
  then show "amalgamate (Suc depth) os filename src_root git_id s =
        (case amalgamate_lines depth os (path_dirname os (path_realpath os filename))
                src_root git_id (text_lines content)
                (s\<lparr>stream := stream s @
                      [Banner, Git_Id git_id,
                       Begin (replace_backslash
                         (path_relpath os (path_realpath os filename) src_root))],
                    already_included := already_included s @ [path_realpath os filename]\<rparr>) of
           None \<Rightarrow> None
         | Some (Raised, s4) \<Rightarrow> Some (Raised, s4)
         | Some (Returned, s4) \<Rightarrow>
             Some (Returned,
               s4\<lparr>stream := stream s4 @
                    [End (replace_backslash
                      (path_relpath os (path_realpath os filename) src_root))]\<rparr>))"
    by (intro first_occurrence) simp_all
next
  assume a: "amalgamate depth os filename src_root git_id s = Some (r, s')"
  then have rel: "amalgamated os src_root git_id filename s r s'" by (rule amalgamate_sound)
  from grows(1) [OF rel] show "\<exists>ws. stream s' = stream s @ Banner # Git_Id git_id # ws"
    by blast
  from rel show 3: "path_realpath os filename \<in> set (already_included s')" by (rule recorded)
  from 3 show "\<forall>d f s2. set (already_included s') \<subseteq> set (already_included s2) \<and>
         path_realpath os f = path_realpath os filename \<longrightarrow>
         amalgamate (Suc d) os f src_root git_id s2 =
           Some (Returned, s2\<lparr>stream := stream s2 @ [Banner, Git_Id git_id]\<rparr>)"
    by (auto simp: seen_banners banners_eq)
  from rel show "accounts os src_root s s'" by (rule accounting)
  assume "r = Returned \<and> same_file os"
  with coverage(1) [OF _ rel] show "covered os src_root s s'" by simp
next
  assume a: "amalgamate depth os filename src_root git_id
      \<lparr>stream = [], already_included = [], console = []\<rparr> = Some (Returned, s') \<and>
    same_file os \<and> inj_on (display os src_root) (set (already_included s')) \<and>
    path_realpath os g \<in> set (already_included s') \<and> open_r os g = Opened content"
  then have "amalgamate depth os filename src_root git_id start = Some (Returned, s')"
    by (simp add: start_def)
  then have "amalgamated os src_root git_id filename start Returned s'"
    by (rule amalgamate_sound)
  from expanded_once [OF this] a
  show "count_list (stream s') (Begin (rel_path_of os src_root g)) = 1"
    and "expanded_in os src_root g (stream s')"
    by simp_all
next
  assume "(\<forall>p. path_exists os p \<longrightarrow> path_realpath os p \<in> set canonical) \<and>
    length canonical + 2 \<le> depth"
  then have c: "\<forall>p. path_exists os p \<longrightarrow> path_realpath os p \<in> set canonical"
    and "length canonical + 2 \<le> depth"
    by simp_all
  then obtain d where d: "depth = Suc d" "length canonical < d"
    by (cases depth) auto
  have "card (set canonical - set (already_included s)) \<le> card (set canonical)"
    by (intro card_mono) auto
  also have "\<dots> \<le> length canonical" by (rule card_length)
  finally have "card (set canonical - set (already_included s)) < d" using d(2) by simp
  from amalgamate_terminates [OF _ c this, of filename src_root git_id] d(1)
  show "\<exists>r s'. amalgamate depth os filename src_root git_id s = Some (r, s')" by auto
qed

text \<open>
  In \<open>cyclic\<close> the file \<open>a.h\<close> includes \<open>b.h\<close>, which includes \<open>a.h\<close>. The run on
  \<open>a.h\<close> expands both files once; the directive for \<open>a.h\<close> in \<open>b.h\<close> gives the banner
  lines only, and so does a call after the run under another spelling of the path.
\<close>

theorem duplicate_suppression_witness:
  "amalgamate 3 cyclic ''simde/a.h'' ''/repo'' ''abc''
     \<lparr>stream = [], already_included = [], console = []\<rparr> =
     Some (Returned,
       \<lparr>stream =
          [Banner, Git_Id ''abc'', Begin ''simde/a.h'', Plain_Line (''#include <stdio.h>'' @ [LF]),
           Banner, Git_Id ''abc'', Begin ''simde/b.h'',
           Banner, Git_Id ''abc'',
           Include_Line (''#include '' @ [Q] @ ''missing.h'' @ [Q, LF]),
           Plain_Line ''int b;'', End ''simde/b.h'',
           Plain_Line (''int a;'' @ [LF]), End ''simde/a.h''],
        already_included = [''/repo/simde/a.h'', ''/repo/simde/b.h''],
        console = []\<rparr>) \<and>
   count_list (stream cyclic_result) (Begin (rel_path_of cyclic ''/repo'' ''/repo/simde/b.h'')) = 1 \<and>
   expanded_in cyclic ''/repo'' ''/repo/simde/b.h'' (stream cyclic_result) \<and>
   amalgamate 1 cyclic ''/repo/simde/./a.h'' ''/repo'' ''abc'' cyclic_result =
     Some (Returned, cyclic_result\<lparr>stream := stream cyclic_result @ [Banner, Git_Id ''abc'']\<rparr>)"
proof -
  let ?content = "''#include <stdio.h>'' @ [LF] @ ''#include '' @ [Q] @ ''b.h'' @ [Q, LF] @
                  ''int a;'' @ [LF]"
  let ?empty = "\<lparr>stream = [], already_included = [], console = []\<rparr>"
  note inst = duplicate_suppression [where os = cyclic and src_root = "''/repo''" and git_id = "''abc''"]
  have n: "path_realpath cyclic ''simde/a.h'' \<notin> set (already_included ?empty)" by simp
  have o: "open_r cyclic ''simde/a.h'' = Opened ?content" by code_simp
  have l: "amalgamate_lines 2 cyclic (path_dirname cyclic (path_realpath cyclic ''simde/a.h''))
             ''/repo'' ''abc'' (text_lines ?content)
             (?empty\<lparr>stream := stream ?empty @
                   [Banner, Git_Id ''abc'',
                    Begin (replace_backslash
                      (path_relpath cyclic (path_realpath cyclic ''simde/a.h'') ''/repo''))],
                 already_included := already_included ?empty @ [path_realpath cyclic ''simde/a.h'']\<rparr>) =
           Some (Returned,
             \<lparr>stream =
                [Banner, Git_Id ''abc'', Begin ''simde/a.h'', Plain_Line (''#include <stdio.h>'' @ [LF]),
                 Banner, Git_Id ''abc'', Begin ''simde/b.h'',
                 Banner, Git_Id ''abc'',
                 Include_Line (''#include '' @ [Q] @ ''missing.h'' @ [Q, LF]),
                 Plain_Line ''int b;'', End ''simde/b.h'',
                 Plain_Line (''int a;'' @ [LF])],
              already_included = [''/repo/simde/a.h'', ''/repo/simde/b.h''],
              console = []\<rparr>)"
    by code_simp
  have e: "replace_backslash (path_relpath cyclic (path_realpath cyclic ''simde/a.h'') ''/repo'') =
           ''simde/a.h''"
    by code_simp
  from inst [where filename = "''simde/a.h''" and s = ?empty and content = ?content and depth = 2]
    n o
  have "amalgamate (Suc 2) cyclic ''simde/a.h'' ''/repo'' ''abc'' ?empty =
        (case amalgamate_lines 2 cyclic (path_dirname cyclic (path_realpath cyclic ''simde/a.h''))
             ''/repo'' ''abc'' (text_lines ?content)
             (?empty\<lparr>stream := stream ?empty @
                   [Banner, Git_Id ''abc'',
                    Begin (replace_backslash
                      (path_relpath cyclic (path_realpath cyclic ''simde/a.h'') ''/repo''))],
                 already_included := already_included ?empty @ [path_realpath cyclic ''simde/a.h'']\<rparr>) of
           None \<Rightarrow> None
         | Some (Raised, s4) \<Rightarrow> Some (Raised, s4)
         | Some (Returned, s4) \<Rightarrow>
             Some (Returned,
               s4\<lparr>stream := stream s4 @
                    [End (replace_backslash
                      (path_relpath cyclic (path_realpath cyclic ''simde/a.h'') ''/repo''))]\<rparr>))"
    by blast
  then have run: "amalgamate 3 cyclic ''simde/a.h'' ''/repo'' ''abc'' ?empty =
      Some (Returned, cyclic_result)"
    unfolding l by (simp add: e cyclic_result_def numeral_3_eq_3)
  have sf: "same_file cyclic" unfolding cyclic_def by (rule posix_same_file)
  have d: "display cyclic ''/repo'' ''/repo/simde/a.h'' = ''simde/a.h''"
    "display cyclic ''/repo'' ''/repo/simde/b.h'' = ''simde/b.h''"
    by code_simp+
  have inj: "inj_on (display cyclic ''/repo'') (set (already_included cyclic_result))"
    by (simp add: cyclic_result_def d)
  have g: "path_realpath cyclic ''/repo/simde/b.h'' \<in> set (already_included cyclic_result)"
    by code_simp
  have og: "open_r cyclic ''/repo/simde/b.h'' =
      Opened (''#include '' @ [Q] @ ''./a.h'' @ [Q, LF] @ ''#include '' @ [Q] @ ''missing.h'' @ [Q, LF] @
         ''int b;'')"
    by code_simp
  from inst [where filename = "''simde/a.h''" and depth = 3 and s' = cyclic_result
      and g = "''/repo/simde/b.h''"
      and content = "''#include '' @ [Q] @ ''./a.h'' @ [Q, LF] @ ''#include '' @ [Q] @ ''missing.h'' @ [Q, LF] @
         ''int b;''"] run sf inj g og
  have once: "count_list (stream cyclic_result) (Begin (rel_path_of cyclic ''/repo'' ''/repo/simde/b.h'')) = 1 \<and>
      expanded_in cyclic ''/repo'' ''/repo/simde/b.h'' (stream cyclic_result)"
    by blast
  have p: "path_realpath cyclic ''/repo/simde/./a.h'' \<in> set (already_included cyclic_result)"
    by code_simp
  from inst [where filename = "''/repo/simde/./a.h''" and depth = 0 and s = cyclic_result] p
  have again: "amalgamate 1 cyclic ''/repo/simde/./a.h'' ''/repo'' ''abc'' cyclic_result =
     Some (Returned, cyclic_result\<lparr>stream := stream cyclic_result @ [Banner, Git_Id ''abc'']\<rparr>)"
    by simp
  from run once again show ?thesis by (simp add: cyclic_result_def)
qed

lemma lines_grow:
  assumes "amalgamate_lines depth os srcdir src_root git_id ls s = Some (r, s')"
  shows "\<exists>ws. stream s' = stream s @ ws"
proof -
  from assms have "lines_amalgamated os src_root git_id srcdir ls s r s'"
    by (rule lines_sound [rotated]) (rule amalgamate_sound)
  from grows(2) [OF this] show ?thesis by blast
qed

text \<open>
  Claim C10, as amended. A line that contains a closing parenthesis anywhere is never
  recognized as an include directive: the loop writes it to the stream as text mode has read
  it, as a plain line, and goes on, so that every result of the loop has the line in the
  stream right after what was there, and the loop over such a line and lines without
  directive returns with exactly these lines written. The line is not always as it is in
  the file: the lines of a file are read with the translation of \<open>\r\n\<close> and \<open>\r\<close> to
  \<open>\n\<close>, so no line has a carriage return. A line made of the directive, a quote, any
  non-empty text without closing parenthesis (double quotes included), a quote and the
  newline is recognized, and the captured path, which the loop resolves, is all the text
  between the first and the last quote.
\<close>

theorem rparen_and_embedded_quotes:
  "(CHR '')'' \<in> set line \<longrightarrow>
      amalgamate_include_match line = None \<and>
      render (Plain_Line line) = line \<and>
      amalgamate_lines depth os srcdir src_root git_id (line # rest) s =
        amalgamate_lines depth os srcdir src_root git_id rest
          (s\<lparr>stream := stream s @ [Plain_Line line]\<rparr>) \<and>
      (\<forall>r s'. amalgamate_lines depth os srcdir src_root git_id (line # rest) s = Some (r, s') \<longrightarrow>
         (\<exists>ws. stream s' = stream s @ Plain_Line line # ws)) \<and>
      ((\<forall>l\<in>set rest. amalgamate_include_match l = None) \<longrightarrow>
         amalgamate_lines depth os srcdir src_root git_id (line # rest) s =
           Some (Returned, s\<lparr>stream := stream s @ Plain_Line line # map Plain_Line rest\<rparr>)) \<and>
      (line \<in> set (text_lines content) \<longrightarrow> CR \<notin> set line)) \<and>
   (g \<noteq> [] \<and> CHR '')'' \<notin> set g \<and> w \<noteq> [] \<and> list_all is_space w \<longrightarrow>
      amalgamate_include_match (''#include'' @ w @ [Q] @ g @ [Q, LF]) = Some g \<and>
      amalgamate_lines depth os srcdir src_root git_id
        ((''#include'' @ w @ [Q] @ g @ [Q, LF]) # rest) s =
        (if path_exists os (path_join os srcdir g)
         then (case amalgamate depth os (path_join os srcdir g) src_root git_id s of
                 None \<Rightarrow> None
               | Some (Raised, s1) \<Rightarrow> Some (Raised, s1)
               | Some (Returned, s1) \<Rightarrow>
                   amalgamate_lines depth os srcdir src_root git_id rest s1)
         else amalgamate_lines depth os srcdir src_root git_id rest
                (s\<lparr>stream := stream s @
                    [Include_Line (''#include'' @ w @ [Q] @ g @ [Q, LF])]\<rparr>)))"
proof (intro conjI impI allI)
  assume p: "CHR '')'' \<in> set line"
  then show n: "amalgamate_include_match line = None" by (rule rparen_never_matches)
  then show st: "amalgamate_lines depth os srcdir src_root git_id (line # rest) s =
        amalgamate_lines depth os srcdir src_root git_id rest
          (s\<lparr>stream := stream s @ [Plain_Line line]\<rparr>)"
    by (simp add: amalgamate_lines_Cons stream_write_def)
  show "render (Plain_Line line) = line" by simp
  {
    fix r s'
    assume "amalgamate_lines depth os srcdir src_root git_id (line # rest) s = Some (r, s')"
    with st have "amalgamate_lines depth os srcdir src_root git_id rest
          (s\<lparr>stream := stream s @ [Plain_Line line]\<rparr>) = Some (r, s')"
      by simp
    from lines_grow [OF this] show "\<exists>ws. stream s' = stream s @ Plain_Line line # ws"
      by simp
  }
  assume "\<forall>l\<in>set rest. amalgamate_include_match l = None"
  with n have "\<forall>l\<in>set (line # rest). amalgamate_include_match l = None" by simp
  from plain_only [OF this]
  show "amalgamate_lines depth os srcdir src_root git_id (line # rest) s =
           Some (Returned, s\<lparr>stream := stream s @ Plain_Line line # map Plain_Line rest\<rparr>)"
    by simp
next
  assume "line \<in> set (text_lines content)"
  then show "CR \<notin> set line" by (rule text_lines_no_CR)
next
  assume a: "g \<noteq> [] \<and> CHR '')'' \<notin> set g \<and> w \<noteq> [] \<and> list_all is_space w"
  have "include_shape (''#include'' @ w @ [Q] @ g @ [Q, LF]) g"
    unfolding include_shape_def
    apply (rule exI [of _ "[]"], rule exI [of _ "[]"], rule exI [of _ w], rule exI [of _ LF],
        rule exI [of _ "[]"])
    using a by (simp add: Q_def)
  then show m: "amalgamate_include_match (''#include'' @ w @ [Q] @ g @ [Q, LF]) = Some g"
    by (simp only: amalgamate_include_match_iff)
  show "amalgamate_lines depth os srcdir src_root git_id
        ((''#include'' @ w @ [Q] @ g @ [Q, LF]) # rest) s =
        (if path_exists os (path_join os srcdir g)
         then (case amalgamate depth os (path_join os srcdir g) src_root git_id s of
                 None \<Rightarrow> None
               | Some (Raised, s1) \<Rightarrow> Some (Raised, s1)
               | Some (Returned, s1) \<Rightarrow>
                   amalgamate_lines depth os srcdir src_root git_id rest s1)
         else amalgamate_lines depth os srcdir src_root git_id rest
                (s\<lparr>stream := stream s @
                    [Include_Line (''#include'' @ w @ [Q] @ g @ [Q, LF])]\<rparr>))"
    unfolding amalgamate_lines_Cons [of _ _ _ _ _ "''#include'' @ w @ [Q] @ g @ [Q, LF]"] m
    by (simp add: stream_write_def)
qed

text \<open>
  A directive whose path has a closing parenthesis is written as a plain line; the directive
  \<open>#include "a" "b"\<close> is recognized with the path \<open>a" "b\<close>, which does not exist in
  \<open>cyclic\<close>, so that the loop writes the line as an unresolved directive.
\<close>

theorem rparen_and_embedded_quotes_witness:
  "amalgamate_lines 1 cyclic ''/repo/simde'' ''/repo'' ''abc''
     [''#include '' @ [Q] @ ''a)b.h'' @ [Q, LF], ''int x;'' @ [LF]]
     \<lparr>stream = [], already_included = [], console = []\<rparr> =
     Some (Returned,
       \<lparr>stream = [Plain_Line (''#include '' @ [Q] @ ''a)b.h'' @ [Q, LF]), Plain_Line (''int x;'' @ [LF])],
        already_included = [], console = []\<rparr>) \<and>
   amalgamate_include_match (''#include '' @ [Q] @ ''a'' @ [Q] @ '' '' @ [Q] @ ''b'' @ [Q, LF]) =
     Some (''a'' @ [Q] @ '' '' @ [Q] @ ''b'') \<and>
   amalgamate_lines 1 cyclic ''/repo/simde'' ''/repo'' ''abc''
     [''#include '' @ [Q] @ ''a'' @ [Q] @ '' '' @ [Q] @ ''b'' @ [Q, LF]]
     \<lparr>stream = [], already_included = [], console = []\<rparr> =
     Some (Returned,
       \<lparr>stream = [Include_Line (''#include '' @ [Q] @ ''a'' @ [Q] @ '' '' @ [Q] @ ''b'' @ [Q, LF])],
        already_included = [], console = []\<rparr>)"
proof -
  let ?empty = "\<lparr>stream = [], already_included = [], console = []\<rparr>"
  have 1: "CHR '')'' \<in> set (''#include '' @ [Q] @ ''a)b.h'' @ [Q, LF])" by simp
  have 2: "\<forall>l\<in>set [''int x;'' @ [LF]]. amalgamate_include_match l = None" by code_simp
  have 3: "''a'' @ [Q] @ '' '' @ [Q] @ ''b'' \<noteq> [] \<and>
           CHR '')'' \<notin> set (''a'' @ [Q] @ '' '' @ [Q] @ ''b'') \<and> '' '' \<noteq> [] \<and> list_all is_space '' ''"
    by (simp add: Q_def)
  have 4: "\<not> path_exists cyclic (path_join cyclic ''/repo/simde'' (''a'' @ [Q] @ '' '' @ [Q] @ ''b''))"
    by code_simp
  from rparen_and_embedded_quotes
         [where line = "''#include '' @ [Q] @ ''a)b.h'' @ [Q, LF]" and depth = 1 and os = cyclic
            and srcdir = "''/repo/simde''" and src_root = "''/repo''" and git_id = "''abc''"
            and rest = "[''int x;'' @ [LF]]" and s = ?empty] 1 2
  have a: "amalgamate_lines 1 cyclic ''/repo/simde'' ''/repo'' ''abc''
     [''#include '' @ [Q] @ ''a)b.h'' @ [Q, LF], ''int x;'' @ [LF]] ?empty =
     Some (Returned,
       ?empty\<lparr>stream := stream ?empty @ Plain_Line (''#include '' @ [Q] @ ''a)b.h'' @ [Q, LF]) #
          map Plain_Line [''int x;'' @ [LF]]\<rparr>)"
    by blast
  from rparen_and_embedded_quotes
         [where depth = 1 and os = cyclic
            and srcdir = "''/repo/simde''" and src_root = "''/repo''" and git_id = "''abc''"
            and rest = "[]" and s = ?empty
            and g = "''a'' @ [Q] @ '' '' @ [Q] @ ''b''" and w = "'' ''"] 3
  have b: "amalgamate_include_match (''#include'' @ '' '' @ [Q] @ (''a'' @ [Q] @ '' '' @ [Q] @ ''b'') @ [Q, LF]) =
      Some (''a'' @ [Q] @ '' '' @ [Q] @ ''b'')"
    and c: "amalgamate_lines 1 cyclic ''/repo/simde'' ''/repo'' ''abc''
        ((''#include'' @ '' '' @ [Q] @ (''a'' @ [Q] @ '' '' @ [Q] @ ''b'') @ [Q, LF]) # []) ?empty =
        (if path_exists cyclic (path_join cyclic ''/repo/simde'' (''a'' @ [Q] @ '' '' @ [Q] @ ''b''))
         then (case amalgamate 1 cyclic (path_join cyclic ''/repo/simde'' (''a'' @ [Q] @ '' '' @ [Q] @ ''b''))
                      ''/repo'' ''abc'' ?empty of
                 None \<Rightarrow> None
               | Some (Raised, s1) \<Rightarrow> Some (Raised, s1)
               | Some (Returned, s1) \<Rightarrow>
                   amalgamate_lines 1 cyclic ''/repo/simde'' ''/repo'' ''abc'' [] s1)
         else amalgamate_lines 1 cyclic ''/repo/simde'' ''/repo'' ''abc'' []
                (?empty\<lparr>stream := stream ?empty @
                    [Include_Line (''#include'' @ '' '' @ [Q] @ (''a'' @ [Q] @ '' '' @ [Q] @ ''b'') @ [Q, LF])]\<rparr>))"
    by blast+
  from c 4 have c': "amalgamate_lines 1 cyclic ''/repo/simde'' ''/repo'' ''abc''
        ((''#include'' @ '' '' @ [Q] @ (''a'' @ [Q] @ '' '' @ [Q] @ ''b'') @ [Q, LF]) # []) ?empty =
        Some (Returned, ?empty\<lparr>stream := stream ?empty @
                    [Include_Line (''#include'' @ '' '' @ [Q] @ (''a'' @ [Q] @ '' '' @ [Q] @ ''b'') @ [Q, LF])]\<rparr>)"
    by (simp only: if_False amalgamate_lines.simps(1))
  from a b c' show ?thesis by simp
qed

text \<open>
  Against the claim as written (the line is passed through verbatim): the file \<open>z.h\<close> of
  \<open>rparen_crlf\<close> is the one line \<open>#include "a)b.h"\<close> ended by \<open>\r\n\<close>. The line is not
  recognized, and it is written with \<open>\n\<close> alone.
\<close>

theorem rparen_crlf_counterexample:
  "open_r rparen_crlf ''z.h'' = Opened (''#include '' @ [Q] @ ''a)b.h'' @ [Q, CR, LF]) \<and>
   disk_lines [] (''#include '' @ [Q] @ ''a)b.h'' @ [Q, CR, LF]) =
     [''#include '' @ [Q] @ ''a)b.h'' @ [Q, CR, LF]] \<and>
   amalgamate_include_match (''#include '' @ [Q] @ ''a)b.h'' @ [Q, CR, LF]) = None \<and>
   amalgamate 1 rparen_crlf ''z.h'' ''/repo'' ''abc''
     \<lparr>stream = [], already_included = [], console = []\<rparr> =
     Some (Returned,
       \<lparr>stream = [Banner, Git_Id ''abc'', Begin ''z.h'',
                  Plain_Line (''#include '' @ [Q] @ ''a)b.h'' @ [Q, LF]), End ''z.h''],
        already_included = [''/repo/z.h''], console = []\<rparr>) \<and>
   render (Plain_Line (''#include '' @ [Q] @ ''a)b.h'' @ [Q, LF])) \<noteq>
     ''#include '' @ [Q] @ ''a)b.h'' @ [Q, CR, LF]"
  by code_simp

text \<open>
  Claim C4, as amended. A line is recognized as a local include directive, with captured
  path \<open>g\<close>, exactly when it has the shape \<open>include_shape\<close>: whitespace, \<open>#\<close>, whitespace,
  \<open>include\<close>, at least one whitespace character, a double quote, the non-empty text \<open>g\<close>
  without closing parenthesis, a double quote, exactly one whitespace character, and then
  the end of the line or one final newline. Every other line is written as a plain line.
\<close>

theorem include_pattern_shape:
  "(amalgamate_include_match line = Some g \<longleftrightarrow> include_shape line g) \<and>
   ((\<forall>g. \<not> include_shape line g) \<longrightarrow>
      amalgamate_lines depth os srcdir src_root git_id (line # rest) s =
        amalgamate_lines depth os srcdir src_root git_id rest
          (s\<lparr>stream := stream s @ [Plain_Line line]\<rparr>))"
proof (intro conjI impI)
  show "amalgamate_include_match line = Some g \<longleftrightarrow> include_shape line g"
    by (rule amalgamate_include_match_iff)
next
  assume "\<forall>g. \<not> include_shape line g"
  then have "amalgamate_include_match line = None"
    by (cases "amalgamate_include_match line") (simp_all add: amalgamate_include_match_iff)
  then show "amalgamate_lines depth os srcdir src_root git_id (line # rest) s =
        amalgamate_lines depth os srcdir src_root git_id rest
          (s\<lparr>stream := stream s @ [Plain_Line line]\<rparr>)"
    by (simp add: amalgamate_lines_Cons stream_write_def)
qed

lemma angle_include_no_shape: "\<not> include_shape (''#include <stdio.h>'' @ [LF]) g"
proof -
  have "amalgamate_include_match (''#include <stdio.h>'' @ [LF]) = None" by code_simp
  then show ?thesis by (simp only: amalgamate_include_match_iff [symmetric]) simp
qed

theorem include_pattern_shape_witness:
  "include_shape (''  # include  '' @ [Q] @ ''x86/sse.h'' @ [Q] @ '' '' @ [LF]) ''x86/sse.h'' \<and>
   amalgamate_lines 0 cyclic [] [] [] [''#include <stdio.h>'' @ [LF]] start =
     Some (Returned, start\<lparr>stream := [Plain_Line (''#include <stdio.h>'' @ [LF])]\<rparr>)"
proof -
  have "amalgamate_include_match (''  # include  '' @ [Q] @ ''x86/sse.h'' @ [Q] @ '' '' @ [LF]) =
          Some ''x86/sse.h''"
    by code_simp
  moreover have "\<forall>g. \<not> include_shape (''#include <stdio.h>'' @ [LF]) g"
    by (rule allI, rule angle_include_no_shape)
  ultimately show ?thesis
    using include_pattern_shape
      [of "''  # include  '' @ [Q] @ ''x86/sse.h'' @ [Q] @ '' '' @ [LF]" "''x86/sse.h''"]
      include_pattern_shape [of "''#include <stdio.h>'' @ [LF]" _ 0 cyclic "[]" "[]" "[]" "[]" start]
    by (simp add: start_def)
qed

text \<open>
  The claim C4 as it is stated fails in both directions. A directive followed by two spaces
  and the newline, and a directive that ends the file without newline, consist of the
  directive, the quoted path and optional trailing whitespace, and are not recognized. A
  directive followed by a comment that ends in a double quote is recognized, the comment
  being taken into the path.
\<close>

theorem include_pattern_counterexample:
  "list_all is_space (''  '' @ [LF]) \<and>
   amalgamate_include_match (''#include '' @ [Q] @ ''a.h'' @ [Q] @ ''  '' @ [LF]) = None \<and>
   amalgamate_include_match (''#include '' @ [Q] @ ''a.h'' @ [Q]) = None \<and>
   amalgamate_include_match (''#include '' @ [Q] @ ''a.h'' @ [Q] @ '' // see '' @ [Q] @ ''b.h'' @ [Q, LF]) =
     Some (''a.h'' @ [Q] @ '' // see '' @ [Q] @ ''b.h'')"
  by code_simp



lemma distinct_count_le: "distinct ps \<Longrightarrow> count_list ps c \<le> 1"
  by (induction ps) (auto simp: count_list_0_iff)

lemma accounts_errors:
  assumes "accounts os root s s'" and "stream s' = stream s @ ws"
  shows "errors os c ws \<le> 1 \<and> (c \<in> set (already_included s) \<longrightarrow> errors os c ws = 0)"
proof -
  from assms obtain ps where ps: "distinct ps" "set ps \<inter> set (already_included s) = {}"
    "errors os c ws \<le> count_list ps c"
    unfolding accounts_def by auto
  from ps(1) have "count_list ps c \<le> 1" by (rule distinct_count_le)
  moreover from ps(2) have "c \<in> set (already_included s) \<longrightarrow> count_list ps c = 0"
    by (auto simp: count_list_0_iff)
  ultimately show ?thesis using ps(3) by auto
qed

lemma lines_accounts:
  assumes "amalgamate_lines depth os srcdir src_root git_id ls s = Some (r, s')"
  shows "accounts os src_root s s'"
proof -
  from assms have "lines_amalgamated os src_root git_id srcdir ls s r s'"
    by (rule lines_sound [rotated]) (rule amalgamate_sound)
  then show ?thesis by (rule accounting(2))
qed

lemma lines_keep_record:
  assumes "amalgamate_lines depth os srcdir src_root git_id ls s = Some (r, s')"
  shows "set (already_included s) \<subseteq> set (already_included s')"
proof -
  from assms have "lines_amalgamated os src_root git_id srcdir ls s r s'"
    by (rule lines_sound [rotated]) (rule amalgamate_sound)
  from grows(2) [OF this] show ?thesis by auto
qed

text \<open>
  Claim C8, as amended. A call for a file that is not in the record and cannot be opened
  writes the banner lines, inserts the canonical path into the record and then, for
  \<open>FileNotFoundError\<close>, writes the diagnostic line, prints the warning and returns, and for
  another error raises. From then on the path stays in the record for the rest of the run. Every
  later call of \<open>amalgamate\<close> for a name with this canonical path writes the two banner
  lines only and does not open the file. A later directive for the path leads to such a call
  only when its existence check succeeds; when the check fails, the directive is written to
  the stream and nothing else. The rest of the run writes no diagnostic line for the path,
  and a call writes at most one diagnostic line for each canonical path.
\<close>

theorem failed_open_recorded:
  assumes "\<forall>content. open_r os filename \<noteq> Opened content"
    and "path_realpath os filename \<notin> set (already_included s)"
  shows "amalgamate (Suc depth) os filename src_root git_id s =
           Some (after_failure os filename git_id s) \<and>
         path_realpath os filename \<in> set (already_included (snd (after_failure os filename git_id s))) \<and>
         (\<forall>d srcdir ls r s2.
            amalgamate_lines d os srcdir src_root git_id ls (snd (after_failure os filename git_id s)) =
              Some (r, s2) \<longrightarrow>
            path_realpath os filename \<in> set (already_included s2) \<and>
            (\<forall>ws. stream s2 = stream (snd (after_failure os filename git_id s)) @ ws \<longrightarrow>
               errors os (path_realpath os filename) ws = 0)) \<and>
         (\<forall>d f s2. path_realpath os f = path_realpath os filename \<and>
            set (already_included (snd (after_failure os filename git_id s))) \<subseteq> set (already_included s2) \<longrightarrow>
            amalgamate (Suc d) os f src_root git_id s2 =
              Some (Returned, s2\<lparr>stream := stream s2 @ [Banner, Git_Id git_id]\<rparr>)) \<and>
         (\<forall>d srcdir source_line group1 rest s2.
            amalgamate_include_match source_line = Some group1 \<and>
            path_realpath os (path_join os srcdir group1) = path_realpath os filename \<and>
            set (already_included (snd (after_failure os filename git_id s))) \<subseteq> set (already_included s2) \<longrightarrow>
            amalgamate_lines (Suc d) os srcdir src_root git_id (source_line # rest) s2 =
              amalgamate_lines (Suc d) os srcdir src_root git_id rest
                (if path_exists os (path_join os srcdir group1)
                 then s2\<lparr>stream := stream s2 @ [Banner, Git_Id git_id]\<rparr>
                 else s2\<lparr>stream := stream s2 @ [Include_Line source_line]\<rparr>)) \<and>
         (\<forall>d f s0 r s' c ws.
            amalgamate d os f src_root git_id s0 = Some (r, s') \<and> stream s' = stream s0 @ ws \<longrightarrow>
            errors os c ws \<le> 1 \<and> (c \<in> set (already_included s0) \<longrightarrow> errors os c ws = 0))"
proof -
  let ?s1 = "snd (after_failure os filename git_id s)"
  have 1: "amalgamate (Suc depth) os filename src_root git_id s =
           Some (after_failure os filename git_id s)"
    using assms
    by (cases "open_r os filename")
       (simp_all add: amalgamate_Suc after_failure_def banners_def record_path_def print_def
          stream_write_def warning_def)
  have 2: "path_realpath os filename \<in> set (already_included ?s1)"
    by (cases "open_r os filename") (simp_all add: after_failure_def)
  have 3: "\<forall>d srcdir ls r s2.
            amalgamate_lines d os srcdir src_root git_id ls ?s1 = Some (r, s2) \<longrightarrow>
            path_realpath os filename \<in> set (already_included s2) \<and>
            (\<forall>ws. stream s2 = stream ?s1 @ ws \<longrightarrow>
               errors os (path_realpath os filename) ws = 0)"
  proof (intro allI impI conjI)
    fix d srcdir ls r s2 ws
    assume l: "amalgamate_lines d os srcdir src_root git_id ls ?s1 = Some (r, s2)"
    from lines_keep_record [OF l] 2
    show "path_realpath os filename \<in> set (already_included s2)" by blast
    assume w: "stream s2 = stream ?s1 @ ws"
    from accounts_errors [OF lines_accounts [OF l] w, of "path_realpath os filename"] 2
    show "errors os (path_realpath os filename) ws = 0" by blast
  qed
  have 4: "\<forall>d f s2. path_realpath os f = path_realpath os filename \<and>
            set (already_included ?s1) \<subseteq> set (already_included s2) \<longrightarrow>
            amalgamate (Suc d) os f src_root git_id s2 =
              Some (Returned, s2\<lparr>stream := stream s2 @ [Banner, Git_Id git_id]\<rparr>)"
  proof (intro allI impI)
    fix d f and s2 :: run_state
    assume "path_realpath os f = path_realpath os filename \<and>
            set (already_included ?s1) \<subseteq> set (already_included s2)"
    with 2 have "path_realpath os f \<in> set (already_included s2)" by auto
    then show "amalgamate (Suc d) os f src_root git_id s2 =
              Some (Returned, s2\<lparr>stream := stream s2 @ [Banner, Git_Id git_id]\<rparr>)"
      by (simp add: seen_banners banners_eq)
  qed
  have 5: "\<forall>d srcdir source_line group1 rest s2.
            amalgamate_include_match source_line = Some group1 \<and>
            path_realpath os (path_join os srcdir group1) = path_realpath os filename \<and>
            set (already_included ?s1) \<subseteq> set (already_included s2) \<longrightarrow>
            amalgamate_lines (Suc d) os srcdir src_root git_id (source_line # rest) s2 =
              amalgamate_lines (Suc d) os srcdir src_root git_id rest
                (if path_exists os (path_join os srcdir group1)
                 then s2\<lparr>stream := stream s2 @ [Banner, Git_Id git_id]\<rparr>
                 else s2\<lparr>stream := stream s2 @ [Include_Line source_line]\<rparr>)"
  proof (intro allI impI)
    fix d srcdir source_line group1 rest and s2 :: run_state
    assume a: "amalgamate_include_match source_line = Some group1 \<and>
            path_realpath os (path_join os srcdir group1) = path_realpath os filename \<and>
            set (already_included ?s1) \<subseteq> set (already_included s2)"
    with 4 have "amalgamate (Suc d) os (path_join os srcdir group1) src_root git_id s2 =
              Some (Returned, s2\<lparr>stream := stream s2 @ [Banner, Git_Id git_id]\<rparr>)"
      by blast
    with a show "amalgamate_lines (Suc d) os srcdir src_root git_id (source_line # rest) s2 =
              amalgamate_lines (Suc d) os srcdir src_root git_id rest
                (if path_exists os (path_join os srcdir group1)
                 then s2\<lparr>stream := stream s2 @ [Banner, Git_Id git_id]\<rparr>
                 else s2\<lparr>stream := stream s2 @ [Include_Line source_line]\<rparr>)"
      by (simp add: amalgamate_lines_Cons stream_write_def)
  qed
  have 6: "\<forall>d f s0 r s' c ws.
            amalgamate d os f src_root git_id s0 = Some (r, s') \<and> stream s' = stream s0 @ ws \<longrightarrow>
            errors os c ws \<le> 1 \<and> (c \<in> set (already_included s0) \<longrightarrow> errors os c ws = 0)"
  proof (intro allI impI)
    fix d f s0 r s' c ws
    assume a: "amalgamate d os f src_root git_id s0 = Some (r, s') \<and> stream s' = stream s0 @ ws"
    then have "amalgamated os src_root git_id f s0 r s'" by (blast intro: amalgamate_sound)
    then have "accounts os src_root s0 s'" by (rule accounting(1))
    from accounts_errors [OF this, of ws c] a
    show "errors os c ws \<le> 1 \<and> (c \<in> set (already_included s0) \<longrightarrow> errors os c ws = 0)" by blast
  qed
  from 1 2 3 4 5 6 show ?thesis by (intro conjI)
qed

text \<open>
  In \<open>vanishing\<close> the file \<open>b.h\<close> passes every existence check and cannot be opened. The call
  for the first directive of \<open>a.h\<close> writes the diagnostic line and records the path; the loop
  then reaches the second directive, for \<open>./b.h\<close>, which gives the banner lines only, and the
  whole run has one diagnostic line.
\<close>

theorem failed_open_recorded_witness:
  "(\<forall>content. open_r vanishing ''/repo/simde/b.h'' \<noteq> Opened content) \<and>
   ''/repo/simde/b.h'' \<notin> set [''/repo/simde/a.h''] \<and>
   amalgamate 1 vanishing ''/repo/simde/b.h'' ''/repo'' ''abc''
     \<lparr>stream = [Banner, Git_Id ''abc'', Begin ''simde/a.h''],
      already_included = [''/repo/simde/a.h''], console = []\<rparr> =
     Some (Returned,
       \<lparr>stream = [Banner, Git_Id ''abc'', Begin ''simde/a.h'',
                  Banner, Git_Id ''abc'', Error_Line ''/repo/simde/b.h''],
        already_included = [''/repo/simde/a.h'', ''/repo/simde/b.h''],
        console = [''Warning: Could not find file to amalgamate: /repo/simde/b.h'']\<rparr>) \<and>
   amalgamate_lines 1 vanishing ''/repo/simde'' ''/repo'' ''abc''
     [''#include '' @ [Q] @ ''./b.h'' @ [Q, LF], ''int a;'' @ [LF]]
     \<lparr>stream = [Banner, Git_Id ''abc'', Begin ''simde/a.h'',
                Banner, Git_Id ''abc'', Error_Line ''/repo/simde/b.h''],
      already_included = [''/repo/simde/a.h'', ''/repo/simde/b.h''],
      console = [''Warning: Could not find file to amalgamate: /repo/simde/b.h'']\<rparr> =
     Some (Returned,
       \<lparr>stream = [Banner, Git_Id ''abc'', Begin ''simde/a.h'',
                  Banner, Git_Id ''abc'', Error_Line ''/repo/simde/b.h'',
                  Banner, Git_Id ''abc'', Plain_Line (''int a;'' @ [LF])],
        already_included = [''/repo/simde/a.h'', ''/repo/simde/b.h''],
        console = [''Warning: Could not find file to amalgamate: /repo/simde/b.h'']\<rparr>) \<and>
   amalgamate 2 vanishing ''simde/a.h'' ''/repo'' ''abc''
     \<lparr>stream = [], already_included = [], console = []\<rparr> = Some (Returned, vanishing_result) \<and>
   errors vanishing ''/repo/simde/b.h'' (stream vanishing_result) = 1"
proof -
  let ?s = "\<lparr>stream = [Banner, Git_Id ''abc'', Begin ''simde/a.h''],
      already_included = [''/repo/simde/a.h''], console = []\<rparr>"
  let ?s1 = "\<lparr>stream = [Banner, Git_Id ''abc'', Begin ''simde/a.h'',
                Banner, Git_Id ''abc'', Error_Line ''/repo/simde/b.h''],
      already_included = [''/repo/simde/a.h'', ''/repo/simde/b.h''],
      console = [''Warning: Could not find file to amalgamate: /repo/simde/b.h'']\<rparr>"
  have f: "open_r vanishing ''/repo/simde/b.h'' = FileNotFoundError" by code_simp
  then have o: "\<forall>content. open_r vanishing ''/repo/simde/b.h'' \<noteq> Opened content" by simp
  have c: "path_realpath vanishing ''/repo/simde/b.h'' = ''/repo/simde/b.h''" by code_simp
  then have u: "path_realpath vanishing ''/repo/simde/b.h'' \<notin> set (already_included ?s)" by simp
  have af: "after_failure vanishing ''/repo/simde/b.h'' ''abc'' ?s = (Returned, ?s1)"
    by (simp add: after_failure_def f c)
  have m: "amalgamate_include_match (''#include '' @ [Q] @ ''./b.h'' @ [Q, LF]) = Some ''./b.h''"
    by code_simp
  have j: "path_join vanishing ''/repo/simde'' ''./b.h'' = ''/repo/simde/./b.h''" by code_simp
  have p: "path_realpath vanishing ''/repo/simde/./b.h'' = ''/repo/simde/b.h''" by code_simp
  have e: "path_exists vanishing ''/repo/simde/./b.h''" by code_simp
  have n: "\<forall>l\<in>set [''int a;'' @ [LF]]. amalgamate_include_match l = None" by code_simp
  note inst = failed_open_recorded [OF o u, of 0 "''/repo''" "''abc''", unfolded af snd_conv]
  from inst have 1: "amalgamate 1 vanishing ''/repo/simde/b.h'' ''/repo'' ''abc'' ?s = Some (Returned, ?s1)"
    by simp
  from inst have "\<forall>d srcdir source_line group1 rest s2.
            amalgamate_include_match source_line = Some group1 \<and>
            path_realpath vanishing (path_join vanishing srcdir group1) =
              path_realpath vanishing ''/repo/simde/b.h'' \<and>
            set (already_included ?s1) \<subseteq> set (already_included s2) \<longrightarrow>
            amalgamate_lines (Suc d) vanishing srcdir ''/repo'' ''abc'' (source_line # rest) s2 =
              amalgamate_lines (Suc d) vanishing srcdir ''/repo'' ''abc'' rest
                (if path_exists vanishing (path_join vanishing srcdir group1)
                 then s2\<lparr>stream := stream s2 @ [Banner, Git_Id ''abc'']\<rparr>
                 else s2\<lparr>stream := stream s2 @ [Include_Line source_line]\<rparr>)"
    by (elim conjE)
  then have "amalgamate_include_match (''#include '' @ [Q] @ ''./b.h'' @ [Q, LF]) = Some ''./b.h'' \<and>
            path_realpath vanishing (path_join vanishing ''/repo/simde'' ''./b.h'') =
              path_realpath vanishing ''/repo/simde/b.h'' \<and>
            set (already_included ?s1) \<subseteq> set (already_included ?s1) \<longrightarrow>
            amalgamate_lines (Suc 0) vanishing ''/repo/simde'' ''/repo'' ''abc''
               ((''#include '' @ [Q] @ ''./b.h'' @ [Q, LF]) # [''int a;'' @ [LF]]) ?s1 =
              amalgamate_lines (Suc 0) vanishing ''/repo/simde'' ''/repo'' ''abc'' [''int a;'' @ [LF]]
                (if path_exists vanishing (path_join vanishing ''/repo/simde'' ''./b.h'')
                 then ?s1\<lparr>stream := stream ?s1 @ [Banner, Git_Id ''abc'']\<rparr>
                 else ?s1\<lparr>stream := stream ?s1 @ [Include_Line (''#include '' @ [Q] @ ''./b.h'' @ [Q, LF])]\<rparr>)"
    by blast
  with m j p c e
  have "amalgamate_lines (Suc 0) vanishing ''/repo/simde'' ''/repo'' ''abc''
               ((''#include '' @ [Q] @ ''./b.h'' @ [Q, LF]) # [''int a;'' @ [LF]]) ?s1 =
              amalgamate_lines (Suc 0) vanishing ''/repo/simde'' ''/repo'' ''abc'' [''int a;'' @ [LF]]
                (?s1\<lparr>stream := stream ?s1 @ [Banner, Git_Id ''abc'']\<rparr>)"
    by simp
  also have "\<dots> = Some (Returned, ?s1\<lparr>stream := (stream ?s1 @ [Banner, Git_Id ''abc'']) @
                 map Plain_Line [''int a;'' @ [LF]]\<rparr>)"
    using plain_only [OF n, of "Suc 0" vanishing "''/repo/simde''" "''/repo''" "''abc''"
        "?s1\<lparr>stream := stream ?s1 @ [Banner, Git_Id ''abc'']\<rparr>"]
    by simp
  finally have 2: "amalgamate_lines 1 vanishing ''/repo/simde'' ''/repo'' ''abc''
     [''#include '' @ [Q] @ ''./b.h'' @ [Q, LF], ''int a;'' @ [LF]] ?s1 =
     Some (Returned,
       \<lparr>stream = [Banner, Git_Id ''abc'', Begin ''simde/a.h'',
                  Banner, Git_Id ''abc'', Error_Line ''/repo/simde/b.h'',
                  Banner, Git_Id ''abc'', Plain_Line (''int a;'' @ [LF])],
        already_included = [''/repo/simde/a.h'', ''/repo/simde/b.h''],
        console = [''Warning: Could not find file to amalgamate: /repo/simde/b.h'']\<rparr>)"
    by simp
  have 3: "amalgamate 2 vanishing ''simde/a.h'' ''/repo'' ''abc''
     \<lparr>stream = [], already_included = [], console = []\<rparr> = Some (Returned, vanishing_result)"
    using vanishing_run by (simp add: start_def)
  have 4: "errors vanishing ''/repo/simde/b.h'' (stream vanishing_result) = 1" by code_simp
  from o 1 2 3 4 show ?thesis by simp
qed

text \<open>
  Against the claim as written (every later reference to the path gives only the two banner
  lines): in \<open>gone\<close> the file \<open>b.h\<close> passes the existence check of the first directive
  of \<open>a.h\<close>, cannot be opened, and is absent at the existence check of the second directive,
  whose name has the same canonical path. The second reference gives no banner line: the
  directive itself is written.
\<close>

theorem failed_open_counterexample:
  "open_r gone ''/repo/simde/b.h'' = FileNotFoundError \<and>
   path_realpath gone ''/repo/simde/./b.h'' = path_realpath gone ''/repo/simde/b.h'' \<and>
   amalgamate 2 gone ''simde/a.h'' ''/repo'' ''abc''
     \<lparr>stream = [], already_included = [], console = []\<rparr> = Some (Returned, gone_result) \<and>
   stream gone_result =
     [Banner, Git_Id ''abc'', Begin ''simde/a.h'',
      Banner, Git_Id ''abc'', Error_Line ''/repo/simde/b.h'',
      Include_Line (''#include '' @ [Q] @ ''./b.h'' @ [Q, LF]),
      Plain_Line (''int a;'' @ [LF]), End ''simde/a.h'']"
  by code_simp

lemma records_first_imp:
  "amalgamated os root git f s r s' \<Longrightarrow>
   path_realpath os f \<notin> set (already_included s) \<longrightarrow>
   (\<exists>ps. already_included s' = already_included s @ path_realpath os f # ps)"
proof (induction rule: amalgamated_lines_amalgamated.inducts(1)
    [where ?P2.0 = "\<lambda>dir ls s r s'. True"])
  case (expanded filename s content s4)
  from grows(2) [OF expanded(3)] show ?case by auto
next
  case (aborted filename s content s4)
  from grows(2) [OF aborted(3)] show ?case by auto
qed auto

lemma records_first:
  assumes "amalgamated os root git f s r s'"
    and "path_realpath os f \<notin> set (already_included s)"
  shows "\<exists>ps. already_included s' = already_included s @ path_realpath os f # ps"
  using records_first_imp [OF assms(1)] assms(2) by blast

text \<open>
  Claim C9. When the canonical paths of all files that exist are among finitely many, listed
  in \<open>canonical\<close>, a call of \<open>amalgamate\<close> with a depth bound above their number ends,
  whatever the include directives are, cycles included: it returns or raises, and the bound
  is not reached. Every call that ends, at any depth, has either found the canonical path
  of its file in the record and written the two banner lines only, or has added this path
  to the record, where it was not before.
\<close>

theorem amalgamate_ends:
  assumes "\<forall>p. path_exists os p \<longrightarrow> path_realpath os p \<in> set canonical"
    and "length canonical + 2 \<le> depth"
  shows "(\<exists>r s'. amalgamate depth os filename src_root git_id s = Some (r, s')) \<and>
         (\<forall>d f t r s'. amalgamate d os f src_root git_id t = Some (r, s') \<longrightarrow>
            (if path_realpath os f \<in> set (already_included t)
             then r = Returned \<and> s' = t\<lparr>stream := stream t @ [Banner, Git_Id git_id]\<rparr>
             else path_realpath os f \<in> set (already_included s') \<and>
                  (\<exists>ps. already_included s' = already_included t @ path_realpath os f # ps)))"
proof
  from assms(2) obtain d where d: "depth = Suc d" "length canonical < d"
    by (cases depth) auto
  have "card (set canonical - set (already_included s)) \<le> card (set canonical)"
    by (intro card_mono) auto
  also have "\<dots> \<le> length canonical" by (rule card_length)
  finally have "card (set canonical - set (already_included s)) < d" using d(2) by simp
  from amalgamate_terminates [OF _ assms(1) this, of filename src_root git_id] d(1)
  show "\<exists>r s'. amalgamate depth os filename src_root git_id s = Some (r, s')" by auto
next
  show "\<forall>d f t r s'. amalgamate d os f src_root git_id t = Some (r, s') \<longrightarrow>
            (if path_realpath os f \<in> set (already_included t)
             then r = Returned \<and> s' = t\<lparr>stream := stream t @ [Banner, Git_Id git_id]\<rparr>
             else path_realpath os f \<in> set (already_included s') \<and>
                  (\<exists>ps. already_included s' = already_included t @ path_realpath os f # ps))"
  proof (intro allI impI)
    fix d f t r s'
    assume a: "amalgamate d os f src_root git_id t = Some (r, s')"
    then have rel: "amalgamated os src_root git_id f t r s'" by (rule amalgamate_sound)
    from a obtain d' where "d = Suc d'" by (auto dest: returns_Suc)
    with a have "path_realpath os f \<in> set (already_included t) \<Longrightarrow>
        r = Returned \<and> s' = t\<lparr>stream := stream t @ [Banner, Git_Id git_id]\<rparr>"
      by (auto simp: seen_banners banners_eq)
    with recorded [OF rel] records_first [OF rel]
    show "if path_realpath os f \<in> set (already_included t)
             then r = Returned \<and> s' = t\<lparr>stream := stream t @ [Banner, Git_Id git_id]\<rparr>
             else path_realpath os f \<in> set (already_included s') \<and>
                  (\<exists>ps. already_included s' = already_included t @ path_realpath os f # ps)"
      by auto
  qed
qed

text \<open>
  In \<open>cyclic\<close> the file \<open>a.h\<close> includes \<open>b.h\<close>, which includes \<open>a.h\<close>; the files and
  directories that exist have five canonical paths.
\<close>

theorem amalgamate_ends_witness:
  "amalgamate 7 cyclic ''simde/a.h'' ''/repo'' ''abc'' start = Some (Returned, cyclic_result)"
proof -
  have "length [''/repo/simde/a.h'', ''/repo/simde/b.h'', ''/repo/simde'', ''/repo'', ''/''] + 2 \<le> (7::nat)"
    by simp
  from amalgamate_ends [OF cyclic_canonical this, of "''simde/a.h''" "''/repo''" "''abc''" start]
  obtain r s' where "amalgamate 7 cyclic ''simde/a.h'' ''/repo'' ''abc'' start = Some (r, s')"
    by blast
  moreover have "amalgamate 7 cyclic ''simde/a.h'' ''/repo'' ''abc'' start = Some (Returned, cyclic_result)"
    using cyclic_run by (rule amalgamate_more_fuel) simp
  ultimately show ?thesis by simp
qed

lemma amalgamate_grows:
  assumes "amalgamate depth os filename src_root git_id s = Some (r, s')"
  shows "\<exists>ws. stream s' = stream s @ Banner # Git_Id git_id # ws"
proof -
  from assms have "amalgamated os src_root git_id filename s r s'" by (rule amalgamate_sound)
  from grows(1) [OF this] show ?thesis by blast
qed

text \<open>
  Claim C5, as amended. For a line that matches, the path of the include is the captured
  path joined to the directory of the canonical path of the including file; \<open>src_root\<close> has
  no part in it. When this path exists, \<open>amalgamate\<close> is called on it with the same record,
  display root and version tag, the stream goes on with the banner lines of this call, and
  the loop goes on from the state that the call leaves (or the exception of the call leaves
  the loop). When it does not exist, the loop writes the line as text mode has read it, with
  no banner and no marker, and goes on: the line comes right after what was in the stream,
  and the loop over such a directive and lines without directive returns with exactly
  these lines written. The line is not always as it is in the file: the lines of a file are
  read with the translation of \<open>\r\n\<close> and \<open>\r\<close> to \<open>\n\<close>, so no line has a carriage
  return. The loop of a file runs with that directory.
\<close>

theorem include_resolution:
  assumes "amalgamate_include_match source_line = Some group1"
  shows "amalgamate_lines depth os (path_dirname os (path_realpath os filename)) src_root git_id
           (source_line # rest) s =
         (if path_exists os (path_join os (path_dirname os (path_realpath os filename)) group1)
          then (case amalgamate depth os
                       (path_join os (path_dirname os (path_realpath os filename)) group1)
                       src_root git_id s of
                  None \<Rightarrow> None
                | Some (Raised, s1) \<Rightarrow> Some (Raised, s1)
                | Some (Returned, s1) \<Rightarrow>
                    amalgamate_lines depth os (path_dirname os (path_realpath os filename))
                      src_root git_id rest s1)
          else amalgamate_lines depth os (path_dirname os (path_realpath os filename)) src_root
                 git_id rest (s\<lparr>stream := stream s @ [Include_Line source_line]\<rparr>)) \<and>
         render (Include_Line source_line) = source_line \<and>
         (path_realpath os filename \<notin> set (already_included s0) \<and>
          open_r os filename = Opened content \<longrightarrow>
            amalgamate (Suc depth) os filename src_root git_id s0 =
              (case amalgamate_lines depth os (path_dirname os (path_realpath os filename))
                      src_root git_id (text_lines content)
                      (s0\<lparr>stream := stream s0 @
                            [Banner, Git_Id git_id,
                             Begin (replace_backslash
                               (path_relpath os (path_realpath os filename) src_root))],
                          already_included := already_included s0 @ [path_realpath os filename]\<rparr>) of
                 None \<Rightarrow> None
               | Some (Raised, s4) \<Rightarrow> Some (Raised, s4)
               | Some (Returned, s4) \<Rightarrow>
                   Some (Returned,
                     s4\<lparr>stream := stream s4 @
                          [End (replace_backslash
                            (path_relpath os (path_realpath os filename) src_root))]\<rparr>))) \<and>
         (path_exists os (path_join os (path_dirname os (path_realpath os filename)) group1) \<longrightarrow>
            (\<forall>r s'. amalgamate_lines depth os (path_dirname os (path_realpath os filename)) src_root
                      git_id (source_line # rest) s = Some (r, s') \<longrightarrow>
               (\<exists>ws. stream s' = stream s @ Banner # Git_Id git_id # ws))) \<and>
         (\<not> path_exists os (path_join os (path_dirname os (path_realpath os filename)) group1) \<longrightarrow>
            (\<forall>r s'. amalgamate_lines depth os (path_dirname os (path_realpath os filename)) src_root
                      git_id (source_line # rest) s = Some (r, s') \<longrightarrow>
               (\<exists>ws. stream s' = stream s @ Include_Line source_line # ws)) \<and>
            ((\<forall>l\<in>set rest. amalgamate_include_match l = None) \<longrightarrow>
               amalgamate_lines depth os (path_dirname os (path_realpath os filename)) src_root
                 git_id (source_line # rest) s =
               Some (Returned,
                 s\<lparr>stream := stream s @ Include_Line source_line # map Plain_Line rest\<rparr>))) \<and>
         (source_line \<in> set (text_lines content) \<longrightarrow> CR \<notin> set source_line)"
proof -
  let ?dir = "path_dirname os (path_realpath os filename)"
  have step: "amalgamate_lines depth os ?dir src_root git_id (source_line # rest) s =
         (if path_exists os (path_join os ?dir group1)
          then (case amalgamate depth os (path_join os ?dir group1) src_root git_id s of
                  None \<Rightarrow> None
                | Some (Raised, s1) \<Rightarrow> Some (Raised, s1)
                | Some (Returned, s1) \<Rightarrow> amalgamate_lines depth os ?dir src_root git_id rest s1)
          else amalgamate_lines depth os ?dir src_root git_id rest
                 (s\<lparr>stream := stream s @ [Include_Line source_line]\<rparr>))"
    using assms by (simp add: amalgamate_lines_Cons stream_write_def)
  have rend: "render (Include_Line source_line) = source_line" by simp
  have first: "path_realpath os filename \<notin> set (already_included s0) \<and>
          open_r os filename = Opened content \<longrightarrow>
            amalgamate (Suc depth) os filename src_root git_id s0 =
              (case amalgamate_lines depth os ?dir src_root git_id (text_lines content)
                      (s0\<lparr>stream := stream s0 @
                            [Banner, Git_Id git_id,
                             Begin (replace_backslash
                               (path_relpath os (path_realpath os filename) src_root))],
                          already_included := already_included s0 @ [path_realpath os filename]\<rparr>) of
                 None \<Rightarrow> None
               | Some (Raised, s4) \<Rightarrow> Some (Raised, s4)
               | Some (Returned, s4) \<Rightarrow>
                   Some (Returned,
                     s4\<lparr>stream := stream s4 @
                          [End (replace_backslash
                            (path_relpath os (path_realpath os filename) src_root))]\<rparr>))"
    by (blast intro: first_occurrence)
  have into: "path_exists os (path_join os ?dir group1) \<longrightarrow>
            (\<forall>r s'. amalgamate_lines depth os ?dir src_root git_id (source_line # rest) s = Some (r, s') \<longrightarrow>
               (\<exists>ws. stream s' = stream s @ Banner # Git_Id git_id # ws))"
  proof (intro impI allI)
    fix r s'
    assume e: "path_exists os (path_join os ?dir group1)"
      and l: "amalgamate_lines depth os ?dir src_root git_id (source_line # rest) s = Some (r, s')"
    show "\<exists>ws. stream s' = stream s @ Banner # Git_Id git_id # ws"
    proof (cases "amalgamate depth os (path_join os ?dir group1) src_root git_id s")
      case None
      with step e l show ?thesis by simp
    next
      case (Some x)
      obtain r1 s1 where x: "x = (r1, s1)" by (cases x)
      from amalgamate_grows [OF Some [unfolded x]]
      obtain ws1 where ws1: "stream s1 = stream s @ Banner # Git_Id git_id # ws1" by blast
      show ?thesis
      proof (cases r1)
        case Raised
        with step e l Some x have "s' = s1" by simp
        with ws1 show ?thesis by blast
      next
        case Returned
        with step e l Some x
        have "amalgamate_lines depth os ?dir src_root git_id rest s1 = Some (r, s')" by simp
        from lines_grow [OF this] obtain ws2 where "stream s' = stream s1 @ ws2" by blast
        with ws1 show ?thesis by simp
      qed
    qed
  qed
  have missing: "\<not> path_exists os (path_join os ?dir group1) \<longrightarrow>
            (\<forall>r s'. amalgamate_lines depth os ?dir src_root git_id (source_line # rest) s = Some (r, s') \<longrightarrow>
               (\<exists>ws. stream s' = stream s @ Include_Line source_line # ws)) \<and>
            ((\<forall>l\<in>set rest. amalgamate_include_match l = None) \<longrightarrow>
               amalgamate_lines depth os ?dir src_root git_id (source_line # rest) s =
               Some (Returned,
                 s\<lparr>stream := stream s @ Include_Line source_line # map Plain_Line rest\<rparr>))"
  proof (intro impI allI conjI)
    fix r s'
    assume e: "\<not> path_exists os (path_join os ?dir group1)"
      and l: "amalgamate_lines depth os ?dir src_root git_id (source_line # rest) s = Some (r, s')"
    with step have "amalgamate_lines depth os ?dir src_root git_id rest
                 (s\<lparr>stream := stream s @ [Include_Line source_line]\<rparr>) = Some (r, s')"
      by simp
    from lines_grow [OF this]
    show "\<exists>ws. stream s' = stream s @ Include_Line source_line # ws" by simp
  next
    assume e: "\<not> path_exists os (path_join os ?dir group1)"
      and p: "\<forall>l\<in>set rest. amalgamate_include_match l = None"
    from step e plain_only [OF p, of depth os ?dir src_root git_id
        "s\<lparr>stream := stream s @ [Include_Line source_line]\<rparr>"]
    show "amalgamate_lines depth os ?dir src_root git_id (source_line # rest) s =
               Some (Returned,
                 s\<lparr>stream := stream s @ Include_Line source_line # map Plain_Line rest\<rparr>)"
      by simp
  qed
  have nocr: "source_line \<in> set (text_lines content) \<longrightarrow> CR \<notin> set source_line"
    by (blast dest: text_lines_no_CR)
  from step rend first into missing nocr show ?thesis by (intro conjI)
qed

text \<open>
  In \<open>cyclic\<close>, from the directory of \<open>simde/a.h\<close>: \<open>b.h\<close> exists and is expanded in
  place of its directive; \<open>missing.h\<close> does not exist and its directive is written as it is.
\<close>

theorem include_resolution_witness:
  "amalgamate_lines 2 cyclic (path_dirname cyclic (path_realpath cyclic ''simde/a.h'')) ''/repo'' ''abc''
     [''#include '' @ [Q] @ ''missing.h'' @ [Q, LF]] start =
     Some (Returned, start\<lparr>stream := [Include_Line (''#include '' @ [Q] @ ''missing.h'' @ [Q, LF])]\<rparr>) \<and>
   amalgamate_lines 2 cyclic (path_dirname cyclic (path_realpath cyclic ''simde/a.h'')) ''/repo'' ''abc''
     [''#include '' @ [Q] @ ''b.h'' @ [Q, LF]] (start\<lparr>already_included := [''/repo/simde/a.h'']\<rparr>) =
     Some (Returned,
       \<lparr>stream = [Banner, Git_Id ''abc'', Begin ''simde/b.h'', Banner, Git_Id ''abc'',
          Include_Line (''#include '' @ [Q] @ ''missing.h'' @ [Q, LF]), Plain_Line ''int b;'',
          End ''simde/b.h''],
        already_included = [''/repo/simde/a.h'', ''/repo/simde/b.h''], console = []\<rparr>)"
proof -
  have m: "amalgamate_include_match (''#include '' @ [Q] @ ''missing.h'' @ [Q, LF]) = Some ''missing.h''"
    by code_simp
  have b: "amalgamate_include_match (''#include '' @ [Q] @ ''b.h'' @ [Q, LF]) = Some ''b.h''"
    by code_simp
  have e1: "\<not> path_exists cyclic
      (path_join cyclic (path_dirname cyclic (path_realpath cyclic ''simde/a.h'')) ''missing.h'')"
    by code_simp
  have e2: "path_exists cyclic
      (path_join cyclic (path_dirname cyclic (path_realpath cyclic ''simde/a.h'')) ''b.h'')"
    by code_simp
  have c: "amalgamate 2 cyclic
      (path_join cyclic (path_dirname cyclic (path_realpath cyclic ''simde/a.h'')) ''b.h'')
      ''/repo'' ''abc'' (start\<lparr>already_included := [''/repo/simde/a.h'']\<rparr>) =
     Some (Returned,
       \<lparr>stream = [Banner, Git_Id ''abc'', Begin ''simde/b.h'', Banner, Git_Id ''abc'',
          Include_Line (''#include '' @ [Q] @ ''missing.h'' @ [Q, LF]), Plain_Line ''int b;'',
          End ''simde/b.h''],
        already_included = [''/repo/simde/a.h'', ''/repo/simde/b.h''], console = []\<rparr>)"
    by code_simp
  note i1 = include_resolution [OF m, of 2 cyclic "''simde/a.h''" "''/repo''" "''abc''" "[]" start,
      THEN conjunct1]
  note i2 = include_resolution [OF b, of 2 cyclic "''simde/a.h''" "''/repo''" "''abc''" "[]"
      "start\<lparr>already_included := [''/repo/simde/a.h'']\<rparr>", THEN conjunct1]
  from i1 have "amalgamate_lines 2 cyclic (path_dirname cyclic (path_realpath cyclic ''simde/a.h'')) ''/repo'' ''abc''
     [''#include '' @ [Q] @ ''missing.h'' @ [Q, LF]] start =
     amalgamate_lines 2 cyclic (path_dirname cyclic (path_realpath cyclic ''simde/a.h'')) ''/repo'' ''abc''
       [] (start\<lparr>stream := stream start @ [Include_Line (''#include '' @ [Q] @ ''missing.h'' @ [Q, LF])]\<rparr>)"
    unfolding if_not_P [OF e1] .
  then have 1: "amalgamate_lines 2 cyclic (path_dirname cyclic (path_realpath cyclic ''simde/a.h'')) ''/repo'' ''abc''
     [''#include '' @ [Q] @ ''missing.h'' @ [Q, LF]] start =
     Some (Returned, start\<lparr>stream := [Include_Line (''#include '' @ [Q] @ ''missing.h'' @ [Q, LF])]\<rparr>)"
    by (simp add: start_def)
  from i2 have "amalgamate_lines 2 cyclic (path_dirname cyclic (path_realpath cyclic ''simde/a.h'')) ''/repo'' ''abc''
     [''#include '' @ [Q] @ ''b.h'' @ [Q, LF]] (start\<lparr>already_included := [''/repo/simde/a.h'']\<rparr>) =
     (case amalgamate 2 cyclic
             (path_join cyclic (path_dirname cyclic (path_realpath cyclic ''simde/a.h'')) ''b.h'')
             ''/repo'' ''abc'' (start\<lparr>already_included := [''/repo/simde/a.h'']\<rparr>) of
        None \<Rightarrow> None
      | Some (Raised, s1) \<Rightarrow> Some (Raised, s1)
      | Some (Returned, s1) \<Rightarrow>
          amalgamate_lines 2 cyclic (path_dirname cyclic (path_realpath cyclic ''simde/a.h''))
            ''/repo'' ''abc'' [] s1)"
    unfolding if_P [OF e2] .
  then have 2: "amalgamate_lines 2 cyclic (path_dirname cyclic (path_realpath cyclic ''simde/a.h'')) ''/repo'' ''abc''
     [''#include '' @ [Q] @ ''b.h'' @ [Q, LF]] (start\<lparr>already_included := [''/repo/simde/a.h'']\<rparr>) =
     Some (Returned,
       \<lparr>stream = [Banner, Git_Id ''abc'', Begin ''simde/b.h'', Banner, Git_Id ''abc'',
          Include_Line (''#include '' @ [Q] @ ''missing.h'' @ [Q, LF]), Plain_Line ''int b;'',
          End ''simde/b.h''],
        already_included = [''/repo/simde/a.h'', ''/repo/simde/b.h''], console = []\<rparr>)"
    unfolding c by simp
  from 1 2 show ?thesis by (rule conjI)
qed

text \<open>
  Against the claim as written (the line is written exactly as it appeared in the source):
  the file \<open>y.h\<close> of \<open>crlf_include\<close> is the one directive \<open>#include "missing.h"\<close> ended by
  \<open>\r\n\<close>, for a file that does not exist. The line that is written ends in \<open>\n\<close> alone.
\<close>

theorem crlf_include_counterexample:
  "open_r crlf_include ''y.h'' = Opened (''#include '' @ [Q] @ ''missing.h'' @ [Q, CR, LF]) \<and>
   disk_lines [] (''#include '' @ [Q] @ ''missing.h'' @ [Q, CR, LF]) =
     [''#include '' @ [Q] @ ''missing.h'' @ [Q, CR, LF]] \<and>
   \<not> path_exists crlf_include (path_join crlf_include ''/repo'' ''missing.h'') \<and>
   amalgamate 1 crlf_include ''y.h'' ''/repo'' ''abc''
     \<lparr>stream = [], already_included = [], console = []\<rparr> =
     Some (Returned,
       \<lparr>stream = [Banner, Git_Id ''abc'', Begin ''y.h'',
                  Include_Line (''#include '' @ [Q] @ ''missing.h'' @ [Q, LF]), End ''y.h''],
        already_included = [''/repo/y.h''], console = []\<rparr>) \<and>
   render (Include_Line (''#include '' @ [Q] @ ''missing.h'' @ [Q, LF])) \<noteq>
     ''#include '' @ [Q] @ ''missing.h'' @ [Q, CR, LF]"
  by code_simp

text \<open>
  Claim C3, as amended. A line that does not match the pattern is written to the stream as
  one write of that line as text mode has read it, character for character, its final
  newline included, and the loop goes on. A file none of whose lines matches is copied
  between its markers as its text after the translation of \<open>\r\n\<close> and \<open>\r\<close> to \<open>\n\<close>
  that reading in text mode makes; this is the text of the file itself when the file has no
  carriage return.
\<close>

theorem plain_lines_copied:
  "(amalgamate_include_match source_line = None \<longrightarrow>
      amalgamate_lines depth os srcdir src_root git_id (source_line # rest) s =
        amalgamate_lines depth os srcdir src_root git_id rest
          (s\<lparr>stream := stream s @ [Plain_Line source_line]\<rparr>) \<and>
      render (Plain_Line source_line) = source_line) \<and>
   (path_realpath os filename \<notin> set (already_included s) \<and>
    open_r os filename = Opened content \<and>
    (\<forall>l\<in>set (text_lines content). amalgamate_include_match l = None) \<longrightarrow>
      amalgamate (Suc depth) os filename src_root git_id s =
        Some (Returned,
          s\<lparr>stream := stream s @
                [Banner, Git_Id git_id,
                 Begin (replace_backslash (path_relpath os (path_realpath os filename) src_root))] @
                map Plain_Line (text_lines content) @
                [End (replace_backslash (path_relpath os (path_realpath os filename) src_root))],
            already_included := already_included s @ [path_realpath os filename]\<rparr>) \<and>
      stream_text (map Plain_Line (text_lines content)) = translate_newlines content) \<and>
   (CR \<notin> set content \<longrightarrow> translate_newlines content = content)"
proof (intro conjI impI)
  assume "amalgamate_include_match source_line = None"
  then show "amalgamate_lines depth os srcdir src_root git_id (source_line # rest) s =
        amalgamate_lines depth os srcdir src_root git_id rest
          (s\<lparr>stream := stream s @ [Plain_Line source_line]\<rparr>)"
    by (simp add: amalgamate_lines_Cons stream_write_def)
next
  show "render (Plain_Line source_line) = source_line" by simp
next
  assume a: "path_realpath os filename \<notin> set (already_included s) \<and>
    open_r os filename = Opened content \<and>
    (\<forall>l\<in>set (text_lines content). amalgamate_include_match l = None)"
  then have "amalgamate_lines depth os (srcdir_of os filename) src_root git_id (text_lines content)
               (stream_write (Begin (rel_path_of os src_root filename))
                 (record_path (path_realpath os filename) (banners git_id s))) =
             Some (Returned,
               (stream_write (Begin (rel_path_of os src_root filename))
                 (record_path (path_realpath os filename) (banners git_id s)))
               \<lparr>stream := stream (stream_write (Begin (rel_path_of os src_root filename))
                 (record_path (path_realpath os filename) (banners git_id s))) @
                   map Plain_Line (text_lines content)\<rparr>)"
    by (intro plain_only) blast
  with a show "amalgamate (Suc depth) os filename src_root git_id s =
        Some (Returned,
          s\<lparr>stream := stream s @
                [Banner, Git_Id git_id,
                 Begin (replace_backslash (path_relpath os (path_realpath os filename) src_root))] @
                map Plain_Line (text_lines content) @
                [End (replace_backslash (path_relpath os (path_realpath os filename) src_root))],
            already_included := already_included s @ [path_realpath os filename]\<rparr>)"
    by (simp add: amalgamate_Suc banners_def record_path_def stream_write_def rel_path_of_def)
next
  have "map render (map Plain_Line ls) = ls" for ls
    by (induction ls) simp_all
  then show "stream_text (map Plain_Line (text_lines content)) = translate_newlines content"
    by (simp add: stream_text_def concat_text_lines)
next
  assume "CR \<notin> set content"
  then show "translate_newlines content = content" by (rule translate_no_CR)
qed

theorem plain_lines_copied_witness:
  "amalgamate 1 lf_file ''x.h'' ''/repo'' ''abc'' start =
     Some (Returned,
       \<lparr>stream = [Banner, Git_Id ''abc'', Begin ''x.h'', Plain_Line (''#include <math.h>'' @ [LF]),
                  Plain_Line (''int x;'' @ [LF]), End ''x.h''],
        already_included = [''/repo/x.h''], console = []\<rparr>) \<and>
   stream_text [Plain_Line (''#include <math.h>'' @ [LF]), Plain_Line (''int x;'' @ [LF])] =
     ''#include <math.h>'' @ [LF] @ ''int x;'' @ [LF]"
proof -
  have o: "open_r lf_file ''x.h'' = Opened (''#include <math.h>'' @ [LF] @ ''int x;'' @ [LF])"
    by code_simp
  have t: "text_lines (''#include <math.h>'' @ [LF] @ ''int x;'' @ [LF]) =
           [''#include <math.h>'' @ [LF], ''int x;'' @ [LF]]"
    by code_simp
  have m: "amalgamate_include_match (''#include <math.h>'' @ [LF]) = None"
    "amalgamate_include_match (''int x;'' @ [LF]) = None"
    by code_simp+
  have p: "path_realpath lf_file ''x.h'' = ''/repo/x.h''"
    "replace_backslash (path_relpath lf_file ''/repo/x.h'' ''/repo'') = ''x.h''"
    by code_simp+
  have c: "CR \<notin> set (''#include <math.h>'' @ [LF] @ ''int x;'' @ [LF])"
    by (simp add: CR_def LF_def)
  from t m have all: "\<forall>l\<in>set (text_lines (''#include <math.h>'' @ [LF] @ ''int x;'' @ [LF])).
      amalgamate_include_match l = None"
    by simp
  from plain_lines_copied [of "''int x;'' @ [LF]" 0 lf_file "[]" "''/repo''" "''abc''" "[]" start
      "''x.h''" "''#include <math.h>'' @ [LF] @ ''int x;'' @ [LF]"] o all c m(2)
  show ?thesis
    by (simp add: start_def p t del: append.simps)
qed

text \<open>
  The claim C3 as it is stated fails for a file with \<open>\r\n\<close> line ends. The file \<open>x.h\<close> of
  \<open>crlf\<close> is the one line \<open>int x;\<close> ended by \<open>\r\n\<close>, which does not match the pattern; the
  line that is written ends in \<open>\n\<close> alone, and the output has no carriage return.
\<close>

theorem crlf_counterexample:
  "open_r crlf ''x.h'' = Opened (''int x;'' @ [CR, LF]) \<and>
   disk_lines [] (''int x;'' @ [CR, LF]) = [''int x;'' @ [CR, LF]] \<and>
   amalgamate_include_match (''int x;'' @ [CR, LF]) = None \<and>
   amalgamate 1 crlf ''x.h'' ''/repo'' ''abc'' start =
     Some (Returned,
       \<lparr>stream = [Banner, Git_Id ''abc'', Begin ''x.h'', Plain_Line (''int x;'' @ [LF]), End ''x.h''],
        already_included = [''/repo/x.h''], console = []\<rparr>) \<and>
   ''int x;'' @ [LF] \<noteq> ''int x;'' @ [CR, LF]"
  by code_simp

lemma write_file_new: "p \<notin> fst ` set fs \<Longrightarrow> write_file p c fs = fs @ [(p, c)]"
  by (induction fs) auto


lemma main_loop_Cons:
  "main_loop depth os source_dir output_simde_dir repo_root git_id (rel_path # rest) st =
     (if path_exists os (path_join os source_dir rel_path) then
        (case amalgamate depth os (path_join os source_dir rel_path) repo_root git_id start of
           None \<Rightarrow> None
         | Some (Raised, s) \<Rightarrow>
             Some (Raised,
               st\<lparr>tree := write_file (path_join os output_simde_dir rel_path)
                             (Amalgamated (stream s)) (tree st),
                  printed := printed st @ console s\<rparr>)
         | Some (Returned, s) \<Rightarrow>
             main_loop depth os source_dir output_simde_dir repo_root git_id rest
               (st\<lparr>tree := write_file (path_join os output_simde_dir rel_path)
                              (Amalgamated (stream s)) (tree st),
                   printed := printed st @ console s\<rparr>))
      else main_loop depth os source_dir output_simde_dir repo_root git_id rest
             (st\<lparr>printed := printed st @
                [''Warning: Source file '' @ [CHR 0x27] @ path_join os source_dir rel_path @
                 [CHR 0x27] @ '' not found. Skipping.'']\<rparr>))"
  by (simp add: Let_def start_def)

declare main_loop.simps(2) [simp del]



text \<open>When all sources exist, the loop creates one file for each header, in their order.\<close>

lemma main_loop_tree:
  "main_loop depth os src out root git hs st = Some (Returned, st') \<Longrightarrow>
   \<forall>h\<in>set hs. path_exists os (path_join os src h) \<Longrightarrow>
   distinct (map (path_join os out) hs) \<Longrightarrow>
   path_join os out ` set hs \<inter> fst ` set (tree st) = {} \<Longrightarrow>
   \<exists>cs. tree st' = tree st @ zip (map (path_join os out) hs) cs \<and> length cs = length hs \<and>
        list_all (\<lambda>c. \<exists>ws. c = Amalgamated ws) cs"
proof (induction hs arbitrary: st)
  case Nil
  then show ?case by simp
next
  case (Cons x hs)
  from Cons.prems(2) have ex: "path_exists os (path_join os src x)"
    "\<forall>h\<in>set hs. path_exists os (path_join os src h)"
    by auto
  from Cons.prems(3) have d: "path_join os out x \<notin> path_join os out ` set hs"
    "distinct (map (path_join os out) hs)"
    by auto
  from Cons.prems(4) have n: "path_join os out x \<notin> fst ` set (tree st)"
    "path_join os out ` set hs \<inter> fst ` set (tree st) = {}"
    by auto
  from ex(1) Cons.prems(1) obtain o1 s where
    c: "amalgamate depth os (path_join os src x) root git start = Some (o1, s)"
    by (auto simp: main_loop_Cons split: option.splits)
  with ex(1) Cons.prems(1) have o1: "o1 = Returned"
    by (cases o1) (simp_all add: main_loop_Cons)
  let ?st1 = "st\<lparr>tree := write_file (path_join os out x) (Amalgamated (stream s)) (tree st),
              printed := printed st @ console s\<rparr>"
  from o1 c ex(1) Cons.prems(1) have l: "main_loop depth os src out root git hs ?st1 = Some (Returned, st')"
    by (simp add: main_loop_Cons)
  have t1: "tree ?st1 = tree st @ [(path_join os out x, Amalgamated (stream s))]"
    using n(1) by (simp add: write_file_new)
  with d(1) n(2) have "path_join os out ` set hs \<inter> fst ` set (tree ?st1) = {}"
    by auto
  from Cons.IH [OF l ex(2) d(2) this] obtain cs where
    cs: "tree st' = tree ?st1 @ zip (map (path_join os out) hs) cs" "length cs = length hs"
      "list_all (\<lambda>c. \<exists>ws. c = Amalgamated ws) cs"
    by blast
  from cs(1) t1 have "tree st' = tree st @ zip (map (path_join os out) (x # hs)) (Amalgamated (stream s) # cs)"
    by simp
  with cs(2,3) show ?case
    by (intro exI [of _ "Amalgamated (stream s) # cs"]) simp
qed























end
